theory Spec2Isabelle
  imports Complex_Main "HOL-Library.Sublist"
begin

section \<open>Scene graph and traversal (utils/traversal)\<close>

text \<open>
  A node of the host's scene graph, as far as the plugin reads it. An instance holds its
  main component (or nothing, when the reference is broken); a node without a \<open>children\<close>
  property has no children here, which the traversal does not distinguish. \<open>ancestors\<close>
  are the types of the parent chain, nearest first, which is all that \<open>getNodeDepth\<close>
  reads of it. The host forbids a component that contains an instance of itself, directly
  or not, so a definition is a finite tree.
\<close>

datatype NodeType =
  DOCUMENT | PAGE | FRAME | GROUP | RECTANGLE | TEXT | COMPONENT | COMPONENT_SET | INSTANCE

datatype PropertyType = BOOLEAN | TEXT_PROPERTY | INSTANCE_SWAP | VARIANT

datatype node = Node
  (nid: string)
  (nname: string)
  (ntype: NodeType)
  (visible: bool)
  (locked: bool)
  (ancestors: "NodeType list")
  (nchildren: "node list")
  (key: string)
  (ndescription: string)
  (componentPropertyDefinitions: "(string \<times> PropertyType \<times> string) list")
  (mainComponent: "node option")

text \<open>Children and main components are smaller than the node: the recursions below end.\<close>

lemma size_child [termination_simp]: "c \<in> set (nchildren n) \<Longrightarrow> size c < size n"
proof (cases n)
  case (Node x1 x2 x3 x4 x5 x6 x7 x8 x9 x10 x11)
  assume "c \<in> set (nchildren n)"
  then have "size c \<le> size_list size x7"
    using Node by (simp add: size_list_estimation')
  then show ?thesis using Node by simp
qed

lemma size_main [termination_simp]: "mainComponent n = Some m \<Longrightarrow> size m < size n"
  by (cases n) auto

text \<open>The callback of \<open>traverseNode\<close> has effects; it is a state transformer here.\<close>

fun traverseNode :: "node \<Rightarrow> (node \<Rightarrow> 's \<Rightarrow> 's) \<Rightarrow> 's \<Rightarrow> 's" where
  "traverseNode node callback s =
     fold (\<lambda>child. traverseNode child callback) (nchildren node) (callback node s)"

definition findNodesByType :: "node \<Rightarrow> NodeType \<Rightarrow> node list" where
  "findNodesByType node nodeType =
     traverseNode node (\<lambda>n results. if ntype n = nodeType then results @ [n] else results) []"

definition findComponentInstances :: "node \<Rightarrow> node list" where
  "findComponentInstances node = findNodesByType node INSTANCE"

definition getMainComponent :: "node \<Rightarrow> node option" where
  "getMainComponent instance = mainComponent instance"

fun getNodeDepth_loop :: "NodeType list \<Rightarrow> nat \<Rightarrow> nat" where
  "getNodeDepth_loop [] depth = depth"
| "getNodeDepth_loop (t # ts) depth =
     (if t \<noteq> DOCUMENT then getNodeDepth_loop ts (Suc depth) else depth)"

definition getNodeDepth :: "node \<Rightarrow> nat" where
  "getNodeDepth node = getNodeDepth_loop (ancestors node) 0"

section \<open>Plugin types (types/index)\<close>

datatype WarningType =
  EXTERNAL_DEPENDENCY | LOCKED_COMPONENT | MISSING_DEFINITION | HIDDEN_COMPONENT

record Warning =
  wtype :: WarningType
  message :: string
  componentId :: "string option"
  componentName :: "string option"

text \<open>
  The fields of \<open>ComponentInfo\<close> carry the prefix \<open>c\<close> where the name is taken
  (\<open>cid\<close>, \<open>cname\<close>, \<open>cdescription\<close>, \<open>ctype\<close>, \<open>cchildren\<close>).
\<close>

record ComponentInfo =
  cid :: string
  cname :: string
  cdescription :: string
  ctype :: NodeType
  isLocal :: bool
  isHidden :: bool
  isLocked :: bool
  variantCount :: "nat option"
  variantProperties :: "(string \<times> string) list option"
  cchildren :: "string list"
  level :: nat

record FilterOptions =
  includeHidden :: bool
  includeExternal :: bool

section \<open>Validator (utils/validator)\<close>

text \<open>
  \<open>rootId\<close> stands for \<open>figma.root.id\<close>. The validator's \<open>isLocked\<close> is
  \<open>isLockedNode\<close> here, since \<open>isLocked\<close> is also a field of \<open>ComponentInfo\<close>.
\<close>

definition isLocalComponent :: "string \<Rightarrow> node \<Rightarrow> bool" where
  "isLocalComponent rootId component = prefix rootId (key component)"

definition isLockedNode :: "node \<Rightarrow> bool" where
  "isLockedNode node = locked node"

definition isVisible :: "node \<Rightarrow> bool" where
  "isVisible node = visible node"

definition validateSelection :: "node list \<Rightarrow> Warning list" where
  "validateSelection selection =
     (if length selection = 0
      then [\<lparr>wtype = MISSING_DEFINITION,
             message = ''No nodes selected. Please select at least one frame, component, or instance.'',
             componentId = None, componentName = None\<rparr>]
      else [])"

definition validateComponent :: "string \<Rightarrow> node \<Rightarrow> Warning list" where
  "validateComponent rootId component =
     (if \<not> isLocalComponent rootId component
      then [\<lparr>wtype = EXTERNAL_DEPENDENCY,
             message = ''Component \"'' @ nname component @
               ''\" is from an external library and cannot be transferred. Please include this library in the destination file.'',
             componentId = Some (nid component), componentName = Some (nname component)\<rparr>]
      else []) @
     (if isLockedNode component
      then [\<lparr>wtype = LOCKED_COMPONENT,
             message = ''Component \"'' @ nname component @
               ''\" is locked and cannot be transferred.'',
             componentId = Some (nid component), componentName = Some (nname component)\<rparr>]
      else []) @
     (if \<not> isVisible component
      then [\<lparr>wtype = HIDDEN_COMPONENT,
             message = ''Component \"'' @ nname component @ ''\" is hidden.'',
             componentId = Some (nid component), componentName = Some (nname component)\<rparr>]
      else [])"

definition validateMainComponent :: "node \<Rightarrow> Warning option" where
  "validateMainComponent instanceNode =
     (case mainComponent instanceNode of
        None \<Rightarrow>
          Some \<lparr>wtype = MISSING_DEFINITION,
                message = ''Instance \"'' @ nname instanceNode @
                  ''\" has no main component definition. It may have been deleted or is from a detached library.'',
                componentId = Some (nid instanceNode),
                componentName = Some (nname instanceNode)\<rparr>
      | Some m \<Rightarrow> None)"

section \<open>Dependency analyzer (utils/analyzer)\<close>

text \<open>
  The component map is a JavaScript \<open>Map\<close>: keys in insertion order, \<open>set\<close> replaces
  the value of a key that is present and appends otherwise. The analyzer keeps a reference
  to the \<open>ComponentInfo\<close> it has stored and pushes to its \<open>children\<close> afterwards:
  \<open>push_child\<close> is that push, on the entry stored under the component's id.
\<close>

type_synonym component_map = "(string \<times> ComponentInfo) list"

definition map_has :: "string \<Rightarrow> component_map \<Rightarrow> bool" where
  "map_has k m = (k \<in> set (map fst m))"

fun map_set :: "string \<Rightarrow> ComponentInfo \<Rightarrow> component_map \<Rightarrow> component_map" where
  "map_set k v [] = [(k, v)]"
| "map_set k v (p # ps) = (if fst p = k then (k, v) # ps else p # map_set k v ps)"

definition push_child :: "string \<Rightarrow> string \<Rightarrow> component_map \<Rightarrow> component_map" where
  "push_child k child m =
     map (\<lambda>p. if fst p = k then (fst p, (snd p)\<lparr>cchildren := cchildren (snd p) @ [child]\<rparr>)
               else p) m"

definition children_include :: "string \<Rightarrow> string \<Rightarrow> component_map \<Rightarrow> bool" where
  "children_include k child m =
     (case map_of m k of None \<Rightarrow> False | Some info \<Rightarrow> child \<in> set (cchildren info))"

record analysis_state =
  componentMap :: component_map
  processedInstances :: "string list"
  warnings :: "Warning list"

definition variant_properties ::
    "(string \<times> PropertyType \<times> string) list \<Rightarrow> (string \<times> string) list" where
  "variant_properties props =
     map (\<lambda>p. (fst p, snd (snd p))) (filter (\<lambda>p. fst (snd p) = VARIANT) props)"

definition component_info :: "string \<Rightarrow> node \<Rightarrow> ComponentInfo" where
  "component_info rootId component =
     \<lparr>cid = nid component, cname = nname component, cdescription = ndescription component,
      ctype = COMPONENT, isLocal = isLocalComponent rootId component,
      isHidden = (\<not> visible component), isLocked = locked component,
      variantCount = None, variantProperties = None, cchildren = [],
      level = getNodeDepth component\<rparr>"

definition component_set_info :: "string \<Rightarrow> node \<Rightarrow> ComponentInfo" where
  "component_set_info rootId componentSet =
     \<lparr>cid = nid componentSet, cname = nname componentSet,
      cdescription = ndescription componentSet,
      ctype = COMPONENT_SET, isLocal = isLocalComponent rootId componentSet,
      isHidden = (\<not> visible componentSet), isLocked = locked componentSet,
      variantCount = Some (length (nchildren componentSet)),
      variantProperties = Some (variant_properties (componentPropertyDefinitions componentSet)),
      cchildren = [], level = getNodeDepth componentSet\<rparr>"

text \<open>
  \<open>processComponent\<close> and \<open>processComponentSet\<close> with their loops:
  \<open>component_instances\<close> is the loop over the nested instances of a component,
  \<open>set_variants\<close> the loop over the variants of a set and \<open>set_instances\<close> the
  loop over the nested instances of one variant.
\<close>

function processComponent ::
    "string \<Rightarrow> FilterOptions \<Rightarrow> node \<Rightarrow> analysis_state \<Rightarrow> analysis_state"
  and processComponentSet ::
    "string \<Rightarrow> FilterOptions \<Rightarrow> node \<Rightarrow> analysis_state \<Rightarrow> analysis_state"
  and component_instances ::
    "string \<Rightarrow> FilterOptions \<Rightarrow> node \<Rightarrow> node list \<Rightarrow> analysis_state \<Rightarrow> analysis_state"
  and set_variants ::
    "string \<Rightarrow> FilterOptions \<Rightarrow> node \<Rightarrow> node list \<Rightarrow> analysis_state \<Rightarrow> analysis_state"
  and set_instances ::
    "string \<Rightarrow> FilterOptions \<Rightarrow> node \<Rightarrow> node list \<Rightarrow> analysis_state \<Rightarrow> analysis_state"
where
  "processComponent rootId options component st =
     (if map_has (nid component) (componentMap st) then st
      else if \<not> isLocalComponent rootId component \<and> \<not> includeExternal options then st
      else if \<not> visible component \<and> \<not> includeHidden options then st
      else
        component_instances rootId options component (findComponentInstances component)
          (st\<lparr>warnings := warnings st @ validateComponent rootId component,
              componentMap :=
                map_set (nid component) (component_info rootId component) (componentMap st)\<rparr>))"
| "processComponentSet rootId options componentSet st =
     (if map_has (nid componentSet) (componentMap st) then st
      else if \<not> isLocalComponent rootId componentSet \<and> \<not> includeExternal options then st
      else if \<not> visible componentSet \<and> \<not> includeHidden options then st
      else
        set_variants rootId options componentSet (nchildren componentSet)
          (st\<lparr>warnings := warnings st @ validateComponent rootId componentSet,
              componentMap :=
                map_set (nid componentSet) (component_set_info rootId componentSet)
                  (componentMap st)\<rparr>))"
| "component_instances rootId options component [] st = st"
| "component_instances rootId options component (inst # rest) st =
     component_instances rootId options component rest
       (case getMainComponent inst of
          None \<Rightarrow> st
        | Some mainComp \<Rightarrow>
            (let st' = st\<lparr>componentMap :=
                          push_child (nid component) (nid mainComp) (componentMap st)\<rparr>
             in if ntype mainComp = COMPONENT
                then processComponent rootId options mainComp st'
                else if ntype mainComp = COMPONENT_SET
                then processComponentSet rootId options mainComp st'
                else st'))"
| "set_variants rootId options componentSet [] st = st"
| "set_variants rootId options componentSet (variant # rest) st =
     set_variants rootId options componentSet rest
       (if ntype variant = COMPONENT
        then set_instances rootId options componentSet (findComponentInstances variant) st
        else st)"
| "set_instances rootId options componentSet [] st = st"
| "set_instances rootId options componentSet (inst # rest) st =
     set_instances rootId options componentSet rest
       (case getMainComponent inst of
          None \<Rightarrow> st
        | Some mainComp \<Rightarrow>
            (if \<not> children_include (nid componentSet) (nid mainComp) (componentMap st)
             then
               (let st' = st\<lparr>componentMap :=
                            push_child (nid componentSet) (nid mainComp) (componentMap st)\<rparr>
                in if ntype mainComp = COMPONENT
                   then processComponent rootId options mainComp st'
                   else if ntype mainComp = COMPONENT_SET
                   then processComponentSet rootId options mainComp st'
                   else st')
             else st))"
  by pat_completeness auto

text \<open>
  The order in which \<open>traverseNode\<close> visits the nodes of a tree, and what the analyzer's
  recursion needs of it to terminate: an instance found inside a node is not larger than
  the node.
\<close>

fun preorder :: "node \<Rightarrow> node list" where
  "preorder n = n # concat (map preorder (nchildren n))"

declare preorder.simps [simp del] traverseNode.simps [simp del]

lemma fold_concat_map: "fold f (concat (map g xs)) s = fold (\<lambda>x. fold f (g x)) xs s"
  by (induction xs arbitrary: s) simp_all

lemma traverseNode_preorder: "traverseNode n callback s = fold callback (preorder n) s"
proof (induction n arbitrary: s rule: preorder.induct)
  case (1 n)
  have "fold (\<lambda>child. traverseNode child callback) (nchildren n) t
      = fold (\<lambda>child. fold callback (preorder child)) (nchildren n) t" for t
    by (rule fold_cong) (auto simp: 1 intro!: ext)
  then show ?case
    by (subst traverseNode.simps, subst preorder.simps) (simp add: fold_concat_map)
qed

lemma fold_collect:
  "fold (\<lambda>n results. if P n then results @ [n] else results) xs acc = acc @ filter P xs"
  by (induction xs arbitrary: acc) simp_all

lemma findNodesByType_preorder:
  "findNodesByType n t = filter (\<lambda>x. ntype x = t) (preorder n)"
  by (simp add: findNodesByType_def traverseNode_preorder fold_collect)

lemma size_preorder: "x \<in> set (preorder n) \<Longrightarrow> size x \<le> size n"
proof (induction n rule: preorder.induct)
  case (1 n)
  from "1.prems" consider "x = n" | c where "c \<in> set (nchildren n)" "x \<in> set (preorder c)"
    by (subst (asm) preorder.simps) auto
  then show ?case
  proof cases
    case 1
    then show ?thesis by simp
  next
    case 2
    then have "size x \<le> size c" using "1.IH" by blast
    with size_child [OF 2(1)] show ?thesis by simp
  qed
qed

lemma size_findComponentInstances:
  "x \<in> set (findComponentInstances n) \<Longrightarrow> size x \<le> size n"
  by (simp add: findComponentInstances_def findNodesByType_preorder size_preorder)

definition max_size :: "node list \<Rightarrow> nat" where
  "max_size ns = fold max (map size ns) 0"

lemma fold_max_le: "fold max xs (a::nat) \<le> b \<longleftrightarrow> a \<le> b \<and> (\<forall>x \<in> set xs. x \<le> b)"
  by (induction xs arbitrary: a) auto

lemma max_size_le: "max_size ns \<le> b \<longleftrightarrow> (\<forall>n \<in> set ns. size n \<le> b)"
  by (simp add: max_size_def fold_max_le)

lemma max_size_lt: "0 < b \<Longrightarrow> max_size ns < b \<longleftrightarrow> (\<forall>n \<in> set ns. size n < b)"
  using max_size_le [of ns "b - 1"] by (cases b) (auto simp: less_Suc_eq_le)

lemma size_le_max_size: "n \<in> set ns \<Longrightarrow> size n \<le> max_size ns"
  using max_size_le [of ns "max_size ns"] by simp

lemma size_node_pos: "0 < size (n :: node)"
  by (cases n) simp

lemma main_lt_max_size:
  "getMainComponent inst = Some m \<Longrightarrow> size m < max_size (inst # rest)"
  using size_main [of inst m] size_le_max_size [of inst "inst # rest"]
  by (simp add: getMainComponent_def)

lemma max_size_tl: "max_size rest \<le> max_size (n # rest)"
  using max_size_le [of rest "max_size (n # rest)"] size_le_max_size [of _ "n # rest"]
  by simp

lemma max_size_found: "max_size (findComponentInstances v) \<le> max_size (v # rest)"
  using max_size_le [of "findComponentInstances v" "max_size (v # rest)"]
    size_le_max_size [of v "v # rest"] size_findComponentInstances [of _ v]
  by (meson le_trans list.set_intros(1))

termination processComponent
  apply (relation "inv_image (less_than <*lex*> less_than <*lex*> less_than)
    (\<lambda>x. case x of
       Inl (Inl (r, opts, c, st)) \<Rightarrow> (size c, 1::nat, 0::nat)
     | Inl (Inr (r, opts, c, st)) \<Rightarrow> (size c, 2, 0)
     | Inr (Inl (r, opts, c, ns, st)) \<Rightarrow> (max_size ns, 0, length ns)
     | Inr (Inr (Inl (r, opts, c, ns, st))) \<Rightarrow> (max_size ns, 1, length ns)
     | Inr (Inr (Inr (r, opts, c, ns, st))) \<Rightarrow> (max_size ns, 0, length ns))")
  subgoal by (intro wf_inv_image wf_lex_prod wf_less_than)
  subgoal for rootId options component st
    using max_size_le [of "findComponentInstances component" "size component"]
    by (auto simp: size_findComponentInstances)
  subgoal for rootId options componentSet st
    using max_size_lt [of "size componentSet" "nchildren componentSet"]
    by (auto simp: size_child size_node_pos)
  subgoal by (simp add: main_lt_max_size)
  subgoal by (simp add: main_lt_max_size)
  subgoal for rootId options component inst rest
    using max_size_tl [of rest inst] by (auto simp: le_less)
  subgoal for rootId options componentSet variant rest
    using max_size_found [of variant rest] by (auto simp: le_less)
  subgoal for rootId options componentSet variant rest
    using max_size_tl [of rest variant] by (auto simp: le_less)
  subgoal by (simp add: main_lt_max_size)
  subgoal by (simp add: main_lt_max_size)
  subgoal for rootId options componentSet inst rest
    using max_size_tl [of rest inst] by (auto simp: le_less)
  done

definition processInstance ::
    "string \<Rightarrow> FilterOptions \<Rightarrow> node \<Rightarrow> analysis_state \<Rightarrow> analysis_state" where
  "processInstance rootId options inst st =
     (if nid inst \<in> set (processedInstances st) then st
      else
        (let st1 = st\<lparr>processedInstances := processedInstances st @ [nid inst]\<rparr>
         in case validateMainComponent inst of
              Some warning \<Rightarrow> st1\<lparr>warnings := warnings st1 @ [warning]\<rparr>
            | None \<Rightarrow>
                (case mainComponent inst of
                   None \<Rightarrow> st1
                 | Some mainComp \<Rightarrow>
                     if ntype mainComp = COMPONENT
                     then processComponent rootId options mainComp st1
                     else if ntype mainComp = COMPONENT_SET
                     then processComponentSet rootId options mainComp st1
                     else st1)))"

definition processNode ::
    "string \<Rightarrow> FilterOptions \<Rightarrow> node \<Rightarrow> analysis_state \<Rightarrow> analysis_state" where
  "processNode rootId options node st =
     (if ntype node = COMPONENT then processComponent rootId options node st
      else if ntype node = COMPONENT_SET then processComponentSet rootId options node st
      else if ntype node = INSTANCE then processInstance rootId options node st
      else
        traverseNode node
          (\<lambda>child s.
             if ntype child = INSTANCE \<and> nid child \<notin> set (processedInstances s)
             then processInstance rootId options child s else s)
          st)"

text \<open>
  The dependency forest. \<open>processedIds\<close> is the set of ids already placed, shared by
  the whole reconstruction; it is kept as the list of the ids in the order they were added,
  and only membership is read.
\<close>

datatype DependencyNode =
  DependencyNode (component: ComponentInfo) (dependencies: "DependencyNode list")

function buildDependencyNode ::
    "string \<Rightarrow> component_map \<Rightarrow> string list \<Rightarrow> DependencyNode option \<times> string list"
  and buildDependencies ::
    "string list \<Rightarrow> component_map \<Rightarrow> string list \<Rightarrow> DependencyNode list \<times> string list"
where
  "buildDependencyNode compId m processedIds =
     (case map_of m compId of
        None \<Rightarrow> (None, processedIds)
      | Some info \<Rightarrow>
          (let r = buildDependencies (cchildren info) m (processedIds @ [compId])
           in (Some (DependencyNode info (fst r)), snd r)))"
| "buildDependencies [] m processedIds = ([], processedIds)"
| "buildDependencies (childId # rest) m processedIds =
     (if childId \<notin> set processedIds
      then
        (let r = buildDependencyNode childId m processedIds;
             rs = buildDependencies rest m (snd r)
         in (case fst r of
               None \<Rightarrow> rs
             | Some childNode \<Rightarrow> (childNode # fst rs, snd rs)))
      else buildDependencies rest m processedIds)"
  by pat_completeness auto

text \<open>
  The recursion is nested: the loop continues with the set that the call for a child
  returns. It ends because that set only grows, and each call for a child that is a key of
  the map adds that key.
\<close>

lemma buildDependencies_grows:
  "buildDependencyNode_buildDependencies_dom (Inl (i, m, p))
     \<Longrightarrow> set p \<subseteq> set (snd (buildDependencyNode i m p))"
  "buildDependencyNode_buildDependencies_dom (Inr (cs, m, p))
     \<Longrightarrow> set p \<subseteq> set (snd (buildDependencies cs m p))"
proof (induction i m p and cs m p rule: buildDependencyNode_buildDependencies.pinduct)
  case (1 compId m processedIds)
  then show ?case
    by (auto simp: buildDependencyNode.psimps Let_def split: option.splits)
next
  case (2 m processedIds)
  then show ?case by (simp add: buildDependencies.psimps)
next
  case (3 childId rest m processedIds)
  show ?case
  proof (cases "childId \<in> set processedIds")
    case True
    then show ?thesis using 3 by (simp add: buildDependencies.psimps)
  next
    case False
    obtain a b where ab: "buildDependencyNode childId m processedIds = (a, b)" by force
    have "set processedIds \<subseteq> set b" using 3(2) [OF False] ab by simp
    moreover have "set b \<subseteq> set (snd (buildDependencies rest m b))"
      using 3(3) [OF False ab [symmetric]] ab by simp
    ultimately show ?thesis
      using 3(1) False ab
      by (auto simp: buildDependencies.psimps Let_def split: option.splits)
  qed
qed

termination buildDependencyNode
  apply (relation "inv_image (less_than <*lex*> less_than)
    (\<lambda>x. case x of
       Inl (i, m, p) \<Rightarrow>
         (if i \<in> set (map fst m) then 3 * card (set (map fst m) - insert i (set p)) + 2 else 0,
          0::nat)
     | Inr (cs, m, p) \<Rightarrow> (3 * card (set (map fst m) - set p) + 1, length cs))")
  subgoal by (intro wf_inv_image wf_lex_prod wf_less_than)
  subgoal for compId m processedIds info
    by (auto simp: map_of_eq_None_iff [symmetric] simp del: map_of_eq_None_iff)
  subgoal for childId rest m processedIds
  proof -
    assume new: "childId \<notin> set processedIds"
    show ?thesis
    proof (cases "childId \<in> set (map fst m)")
      case True
      with new have "card (set (map fst m) - insert childId (set processedIds))
          < card (set (map fst m) - set processedIds)"
        by (intro psubset_card_mono) auto
      then show ?thesis using True by simp
    next
      case False
      then show ?thesis by simp
    qed
  qed
  subgoal for childId rest m processedIds x
    using buildDependencies_grows(1) [of childId m processedIds]
      card_mono [of "set (map fst m) - set processedIds" "set (map fst m) - set (snd x)"]
    by (auto simp: le_less)
  subgoal by simp
  done

fun build_roots ::
    "ComponentInfo list \<Rightarrow> component_map \<Rightarrow> string list \<Rightarrow> DependencyNode list \<Rightarrow> string list
      \<Rightarrow> DependencyNode list" where
  "build_roots [] m allChildIds tree processedIds = tree"
| "build_roots (info # rest) m allChildIds tree processedIds =
     (if cid info \<notin> set allChildIds \<and> cid info \<notin> set processedIds
      then
        (let r = buildDependencyNode (cid info) m processedIds
         in case fst r of
              None \<Rightarrow> build_roots rest m allChildIds tree (snd r)
            | Some node \<Rightarrow> build_roots rest m allChildIds (tree @ [node]) (snd r))
      else build_roots rest m allChildIds tree processedIds)"

definition all_child_ids :: "component_map \<Rightarrow> string list" where
  "all_child_ids m = concat (map (\<lambda>p. cchildren (snd p)) m)"

definition buildDependencyTree :: "component_map \<Rightarrow> DependencyNode list" where
  "buildDependencyTree m = build_roots (map snd m) m (all_child_ids m) [] []"

record AnalysisStats =
  totalComponents :: nat
  mainComponents :: nat
  childComponents :: nat
  variantSets :: nat
  externalComponents :: nat
  hiddenComponents :: nat
  lockedComponents :: nat

definition empty_stats :: AnalysisStats where
  "empty_stats =
     \<lparr>totalComponents = 0, mainComponents = 0, childComponents = 0, variantSets = 0,
      externalComponents = 0, hiddenComponents = 0, lockedComponents = 0\<rparr>"

definition count_component :: "ComponentInfo \<Rightarrow> AnalysisStats \<Rightarrow> AnalysisStats" where
  "count_component info s =
     s\<lparr>variantSets := (if ctype info = COMPONENT_SET then Suc (variantSets s) else variantSets s),
       childComponents :=
         (if length (cchildren info) = 0 then Suc (childComponents s) else childComponents s),
       mainComponents :=
         (if length (cchildren info) = 0 then mainComponents s else Suc (mainComponents s)),
       externalComponents :=
         (if \<not> isLocal info then Suc (externalComponents s) else externalComponents s),
       hiddenComponents :=
         (if isHidden info then Suc (hiddenComponents s) else hiddenComponents s),
       lockedComponents :=
         (if isLocked info then Suc (lockedComponents s) else lockedComponents s)\<rparr>"

definition calculateStats :: "component_map \<Rightarrow> Warning list \<Rightarrow> AnalysisStats" where
  "calculateStats m ws = (fold count_component (map snd m) empty_stats)\<lparr>totalComponents := length m\<rparr>"

record AnalysisResult =
  components :: component_map
  dependencyTree :: "DependencyNode list"
  result_warnings :: "Warning list"
  stats :: AnalysisStats

definition createEmptyResult :: "Warning list \<Rightarrow> AnalysisResult" where
  "createEmptyResult ws =
     \<lparr>components = [], dependencyTree = [], result_warnings = ws, stats = empty_stats\<rparr>"

definition defaultOptions :: FilterOptions where
  "defaultOptions = \<lparr>includeHidden = False, includeExternal = False\<rparr>"

definition analyzeSelection :: "string \<Rightarrow> node list \<Rightarrow> FilterOptions \<Rightarrow> AnalysisResult" where
  "analyzeSelection rootId selection options =
     (if length selection = 0 then createEmptyResult (validateSelection selection)
      else
        (let st = fold (processNode rootId options) selection
                    \<lparr>componentMap = [], processedInstances = [],
                     warnings = validateSelection selection\<rparr>
         in \<lparr>components = componentMap st,
             dependencyTree = buildDependencyTree (componentMap st),
             result_warnings = warnings st,
             stats = calculateStats (componentMap st) (warnings st)\<rparr>))"

text \<open>
  The vocabulary of the statements about the forest: the entries of a forest in pre-order,
  their ids, and the ids of its roots.
\<close>

fun node_infos :: "DependencyNode \<Rightarrow> ComponentInfo list" where
  "node_infos (DependencyNode info deps) = info # concat (map node_infos deps)"

definition forest_infos :: "DependencyNode list \<Rightarrow> ComponentInfo list" where
  "forest_infos forest = concat (map node_infos forest)"

definition forest_ids :: "DependencyNode list \<Rightarrow> string list" where
  "forest_ids forest = map cid (forest_infos forest)"

definition root_ids :: "DependencyNode list \<Rightarrow> string list" where
  "root_ids forest = map (\<lambda>t. cid (component t)) forest"

text \<open>
  All nodes that can be reached from a node through children and main components, and the
  host's guarantee that ids are unique in a document: two reachable nodes with the same
  id are the same node.
\<close>

fun subnodes :: "node \<Rightarrow> node list" where
  "subnodes n =
     n # concat (map subnodes (nchildren n))
       @ (case mainComponent n of None \<Rightarrow> [] | Some d \<Rightarrow> subnodes d)"

definition unique_ids :: "node list \<Rightarrow> bool" where
  "unique_ids selection \<longleftrightarrow>
     (\<forall>a \<in> set (concat (map subnodes selection)).
        \<forall>b \<in> set (concat (map subnodes selection)). nid a = nid b \<longrightarrow> a = b)"

text \<open>
  The instances that the analysis of a selection looks at: a selected instance, and every
  instance inside a selected node that is neither a component, a component set nor an
  instance (\<open>processNode\<close> traverses only those). A definition is admitted to the map
  when it passes the two filters of \<open>processComponent\<close> and \<open>processComponentSet\<close>.
\<close>

definition visited_instances :: "node \<Rightarrow> node list" where
  "visited_instances node =
     (if ntype node = COMPONENT \<or> ntype node = COMPONENT_SET then []
      else if ntype node = INSTANCE then [node]
      else filter (\<lambda>x. ntype x = INSTANCE) (preorder node))"

definition selected_instances :: "node list \<Rightarrow> node list" where
  "selected_instances selection = concat (map visited_instances selection)"

definition admitted :: "string \<Rightarrow> FilterOptions \<Rightarrow> node \<Rightarrow> bool" where
  "admitted rootId options c \<longleftrightarrow>
     (isLocalComponent rootId c \<or> includeExternal options)
     \<and> (visible c \<or> includeHidden options)"

section \<open>Invariants of the analysis\<close>

text \<open>
  A property of nodes that passes from a node to its children and to its main component,
  and a property of the component map that the two ways of changing the map keep.
\<close>

definition closed_under_subnodes :: "(node \<Rightarrow> bool) \<Rightarrow> bool" where
  "closed_under_subnodes Q \<longleftrightarrow>
     (\<forall>n c. Q n \<longrightarrow> c \<in> set (nchildren n) \<longrightarrow> Q c) \<and>
     (\<forall>n d. Q n \<longrightarrow> mainComponent n = Some d \<longrightarrow> Q d)"

definition map_invariant ::
    "string \<Rightarrow> FilterOptions \<Rightarrow> (node \<Rightarrow> bool) \<Rightarrow> (component_map \<Rightarrow> bool) \<Rightarrow> bool" where
  "map_invariant rootId options Q I \<longleftrightarrow>
     (\<forall>m c info. I m \<longrightarrow> Q c \<longrightarrow> \<not> map_has (nid c) m
        \<longrightarrow> isLocalComponent rootId c \<or> includeExternal options
        \<longrightarrow> visible c \<or> includeHidden options
        \<longrightarrow> info = component_info rootId c \<or> info = component_set_info rootId c
        \<longrightarrow> I (map_set (nid c) info m)) \<and>
     (\<forall>m owner d. I m \<longrightarrow> Q owner \<longrightarrow> Q d \<longrightarrow> size d < size owner
        \<longrightarrow> I (push_child (nid owner) (nid d) m))"

text \<open>
  Every entry is stored under its own id; every node of \<open>X\<close> has its children that are
  keys of the map in \<open>P\<close>; child references descend along a rank; every entry stems
  from a node with the property \<open>Q\<close> and its children from smaller such nodes.
\<close>

definition keyed :: "component_map \<Rightarrow> bool" where
  "keyed m \<longleftrightarrow> (\<forall>p \<in> set m. cid (snd p) = fst p)"

definition closed_in :: "component_map \<Rightarrow> string set \<Rightarrow> string set \<Rightarrow> bool" where
  "closed_in m X P \<longleftrightarrow>
     (\<forall>x \<in> X. \<forall>info. map_of m x = Some info \<longrightarrow>
        (\<forall>c \<in> set (cchildren info). map_has c m \<longrightarrow> c \<in> P))"

definition forest_of :: "DependencyNode option \<Rightarrow> DependencyNode list" where
  "forest_of r = (case r of None \<Rightarrow> [] | Some t \<Rightarrow> [t])"

definition ranked :: "(string \<Rightarrow> nat) \<Rightarrow> component_map \<Rightarrow> bool" where
  "ranked r m \<longleftrightarrow>
     (\<forall>p \<in> set m. \<forall>c \<in> set (cchildren (snd p)). map_has c m \<longrightarrow> r c < r (fst p))"

definition traced :: "(node \<Rightarrow> bool) \<Rightarrow> component_map \<Rightarrow> bool" where
  "traced Q m \<longleftrightarrow>
     (\<forall>p \<in> set m. cid (snd p) = fst p \<and>
        (\<exists>c. Q c \<and> nid c = fst p \<and>
           (\<forall>ch \<in> set (cchildren (snd p)). \<exists>d. Q d \<and> nid d = ch \<and> size d < size c)))"

section \<open>Example documents\<close>

text \<open>
  Small documents in the style of the repository's analyzer tests, for the root id
  \<open>doc123\<close>: a button with two icon instances, a variant set whose variant holds the
  same two instances, a card that uses the button and the icon, and a component of another
  library.
\<close>

definition mk_component :: "string \<Rightarrow> string \<Rightarrow> string \<Rightarrow> node list \<Rightarrow> node" where
  "mk_component i n k cs = Node i n COMPONENT True False [PAGE, DOCUMENT] cs k [] [] None"

definition mk_component_set :: "string \<Rightarrow> string \<Rightarrow> string \<Rightarrow> node list \<Rightarrow> node" where
  "mk_component_set i n k cs = Node i n COMPONENT_SET True False [PAGE, DOCUMENT] cs k [] [] None"

definition mk_instance :: "string \<Rightarrow> string \<Rightarrow> node \<Rightarrow> node" where
  "mk_instance i n d = Node i n INSTANCE True False [PAGE, DOCUMENT] [] [] [] [] (Some d)"

definition icon :: node where
  "icon = mk_component ''icon'' ''Icon'' ''doc123_icon'' []"

definition button :: node where
  "button = mk_component ''button'' ''Button'' ''doc123_button''
     [mk_instance ''inst1'' ''Icon 1'' icon, mk_instance ''inst2'' ''Icon 2'' icon]"

definition buttonVariants :: node where
  "buttonVariants = mk_component_set ''varSet'' ''ButtonVariants'' ''doc123_varset''
     [mk_component ''var1'' ''Primary'' ''doc123_var1''
        [mk_instance ''inst1'' ''Icon 1'' icon, mk_instance ''inst2'' ''Icon 2'' icon]]"

definition externalWidget :: node where
  "externalWidget = mk_component ''comp1'' ''ExternalWidget'' ''otherdoc_x'' []"

definition icon_analysed :: analysis_state where
  "icon_analysed =
     \<lparr>componentMap = [(''icon'', component_info ''doc123'' icon)],
      processedInstances = [''inst1''], warnings = []\<rparr>"

definition card :: node where
  "card = mk_component ''card'' ''Card'' ''doc123_card''
     [mk_instance ''inst3'' ''Button 1'' button, mk_instance ''inst4'' ''Icon 3'' icon]"

text \<open>
  Two selections of instances: a frame with two instances of the icon, a third instance of
  the icon and an instance of the external widget; and two instances of the external
  widget.
\<close>

definition mixed_selection :: "node list" where
  "mixed_selection =
     [Node ''frame'' ''Frame'' FRAME True False [PAGE, DOCUMENT]
        [mk_instance ''inst1'' ''Icon 1'' icon, mk_instance ''inst2'' ''Icon 2'' icon]
        [] [] [] None,
      mk_instance ''inst4'' ''Icon 3'' icon,
      mk_instance ''inst5'' ''Widget 1'' externalWidget]"

definition two_external_instances :: "node list" where
  "two_external_instances =
     [mk_instance ''inst1'' ''Widget 1'' externalWidget,
      mk_instance ''inst2'' ''Widget 2'' externalWidget]"

section \<open>Layout: spacing heuristic (utils/layout)\<close>

text \<open>
  JavaScript numbers are modelled as exact reals: the spacing heuristic only compares
  the count with two thresholds and multiplies the base spacing by a constant.
\<close>

definition calculateOptimalSpacing :: "real \<Rightarrow> real \<Rightarrow> real" where
  "calculateOptimalSpacing componentCount defaultSpacing =
     (if componentCount > 50 then defaultSpacing * 1.5
      else if componentCount > 100 then defaultSpacing * 2
      else defaultSpacing)"

section \<open>JavaScript numbers\<close>

text \<open>
  The progress tracker divides and multiplies its counters, so its numbers are IEEE 754
  doubles, as in JavaScript: \<open>NaN\<close>, the two infinities, negative zero, and the finite
  values, each kept as the real number it denotes (\<open>Fin 0\<close> is positive zero). An
  arithmetic operation returns its exact result rounded to the nearest double, ties to the
  even significand, so the operations map doubles to doubles; nothing below needs the
  arguments to be doubles.
\<close>

datatype number = NaN | PosInf | NegInf | NegZero | Fin real

fun is_finite :: "number \<Rightarrow> bool" where
  "is_finite NegZero = True"
| "is_finite (Fin r) = True"
| "is_finite x = False"

fun real_of :: "number \<Rightarrow> real" where
  "real_of (Fin r) = r"
| "real_of x = 0"

fun negative :: "number \<Rightarrow> bool" where
  "negative NegInf = True"
| "negative NegZero = True"
| "negative (Fin r) = (r < 0)"
| "negative x = False"

definition signed_infinity :: "bool \<Rightarrow> number" where
  "signed_infinity neg = (if neg then NegInf else PosInf)"

definition signed_zero :: "bool \<Rightarrow> number" where
  "signed_zero neg = (if neg then NegZero else Fin 0)"

text \<open>
  The exponent of a non-negative real: the \<open>e\<close> with \<open>2^e \<le> x < 2^(e+1)\<close>, found by
  halving or doubling, and not below -1022, the exponent of the subnormal numbers.
\<close>

function binade_up :: "real \<Rightarrow> int \<Rightarrow> int" where
  "binade_up x e = (if 2 \<le> x then binade_up (x / 2) (e + 1) else e)"
  by auto
termination
proof (relation "measure (\<lambda>(x, e). nat \<lfloor>x\<rfloor>)")
  show "wf (measure (\<lambda>(x, e). nat \<lfloor>x\<rfloor>))" by simp
next
  fix x :: real and e :: int
  assume "2 \<le> x"
  then have "\<lfloor>x / 2\<rfloor> < \<lfloor>x\<rfloor>" by linarith
  moreover have "0 < \<lfloor>x\<rfloor>" using \<open>2 \<le> x\<close> by linarith
  ultimately show "((x / 2, e + 1), (x, e)) \<in> measure (\<lambda>(x, e). nat \<lfloor>x\<rfloor>)"
    by simp
qed

function binade_down :: "real \<Rightarrow> int \<Rightarrow> int" where
  "binade_down x e = (if x < 1 \<and> - 1022 < e then binade_down (2 * x) (e - 1) else e)"
  by auto
termination
  by (relation "measure (\<lambda>(x, e). nat (e + 1022))") auto

declare binade_up.simps [simp del] binade_down.simps [simp del]

definition exponent :: "real \<Rightarrow> int" where
  "exponent x = (if 1 \<le> x then binade_up x 0 else binade_down x 0)"

text \<open>
  A double has 53 significant bits: around \<open>x\<close> the doubles are the multiples of
  \<open>ulp x\<close>, and \<open>nearest x\<close> is the one closest to \<open>x\<close>, the even multiple at a tie.
\<close>

definition ulp :: "real \<Rightarrow> real" where
  "ulp x = 2 powi (exponent x - 52)"

definition round_half_even :: "real \<Rightarrow> int" where
  "round_half_even q =
     (let f = \<lfloor>q\<rfloor> in
      if q - of_int f < 1 / 2 then f
      else if 1 / 2 < q - of_int f then f + 1
      else if even f then f else f + 1)"

definition nearest :: "real \<Rightarrow> real" where
  "nearest x = of_int (round_half_even (x / ulp x)) * ulp x"

text \<open>
  \<open>round_to neg x\<close> is the double for the exact result \<open>x\<close>: an infinity from
  \<open>2^1024\<close> on, a zero with the sign of \<open>x\<close> on underflow, and a zero with the sign
  \<open>neg\<close> when \<open>x\<close> is zero itself.
\<close>

definition overflow_threshold :: real where
  "overflow_threshold = 2 ^ 1024"

lemma overflow_threshold_code [code]:
  "overflow_threshold =
     179769313486231590772930519078902473361797697894230657273430081157732675805500963132708477322407536021120113879871393357658789768814416622492847430639474124377767893424865485276302219601246094119453082952085005768838150682342462881473913110540827237163350510684586298239947245938479716304835356329624224137216"
  by (simp add: overflow_threshold_def)

definition round_to :: "bool \<Rightarrow> real \<Rightarrow> number" where
  "round_to neg x =
     (let m = nearest \<bar>x\<bar> in
      if overflow_threshold \<le> m then signed_infinity (x < 0)
      else if m = 0 then signed_zero (x < 0 \<or> (x = 0 \<and> neg))
      else Fin (if x < 0 then - m else m))"

text \<open>
  The operators \<open>/\<close>, \<open>*\<close>, \<open>+\<close>, unary and binary \<open>-\<close>, the comparisons \<open><\<close>,
  \<open>>\<close>, \<open><=\<close> and \<open>===\<close>, and \<open>Math.round\<close>, which rounds to the nearest integer,
  halves towards plus infinity, and keeps the sign of a result that is zero.
\<close>

definition js_div :: "number \<Rightarrow> number \<Rightarrow> number" where
  "js_div x y =
     (if x = NaN \<or> y = NaN then NaN
      else if \<not> is_finite x
        then (if \<not> is_finite y then NaN else signed_infinity (negative x \<noteq> negative y))
      else if \<not> is_finite y then signed_zero (negative x \<noteq> negative y)
      else if real_of y = 0
        then (if real_of x = 0 then NaN else signed_infinity (negative x \<noteq> negative y))
      else round_to (negative x \<noteq> negative y) (real_of x / real_of y))"

definition js_mul :: "number \<Rightarrow> number \<Rightarrow> number" where
  "js_mul x y =
     (if x = NaN \<or> y = NaN then NaN
      else if \<not> is_finite x \<or> \<not> is_finite y
        then (if (is_finite x \<and> real_of x = 0) \<or> (is_finite y \<and> real_of y = 0) then NaN
              else signed_infinity (negative x \<noteq> negative y))
      else round_to (negative x \<noteq> negative y) (real_of x * real_of y))"

definition js_add :: "number \<Rightarrow> number \<Rightarrow> number" where
  "js_add x y =
     (if x = NaN \<or> y = NaN then NaN
      else if \<not> is_finite x
        then (if \<not> is_finite y \<and> x \<noteq> y then NaN else x)
      else if \<not> is_finite y then y
      else round_to (negative x \<and> negative y) (real_of x + real_of y))"

fun js_neg :: "number \<Rightarrow> number" where
  "js_neg NaN = NaN"
| "js_neg PosInf = NegInf"
| "js_neg NegInf = PosInf"
| "js_neg NegZero = Fin 0"
| "js_neg (Fin r) = (if r = 0 then NegZero else Fin (- r))"

definition js_sub :: "number \<Rightarrow> number \<Rightarrow> number" where
  "js_sub x y = js_add x (js_neg y)"

definition js_lt :: "number \<Rightarrow> number \<Rightarrow> bool" where
  "js_lt x y \<longleftrightarrow>
     x \<noteq> NaN \<and> y \<noteq> NaN \<and>
     ((x = NegInf \<and> y \<noteq> NegInf) \<or> (y = PosInf \<and> x \<noteq> PosInf)
      \<or> (is_finite x \<and> is_finite y \<and> real_of x < real_of y))"

definition js_gt :: "number \<Rightarrow> number \<Rightarrow> bool" where
  "js_gt x y = js_lt y x"

definition js_le :: "number \<Rightarrow> number \<Rightarrow> bool" where
  "js_le x y \<longleftrightarrow>
     x \<noteq> NaN \<and> y \<noteq> NaN \<and>
     (x = NegInf \<or> y = PosInf \<or> (is_finite x \<and> is_finite y \<and> real_of x \<le> real_of y))"

definition js_strict_eq :: "number \<Rightarrow> number \<Rightarrow> bool" where
  "js_strict_eq x y \<longleftrightarrow>
     x \<noteq> NaN \<and> y \<noteq> NaN \<and> (x = y \<or> (is_finite x \<and> is_finite y \<and> real_of x = real_of y))"

fun Math_round :: "number \<Rightarrow> number" where
  "Math_round (Fin r) =
     (let n = \<lfloor>r + 1 / 2\<rfloor> in if n = 0 \<and> r < 0 then NegZero else Fin (of_int n))"
| "Math_round x = x"

section \<open>Progress tracker (utils/progress)\<close>

datatype phase = Analyzing | Collecting | Organizing | Finalizing

record ProgressInfo =
  pi_phase :: phase
  percentage :: number
  pi_currentItem :: string
  pi_processed :: number
  pi_total :: number
  estimatedTimeRemaining :: number

text \<open>
  The private fields of the class. The optional subscriber is modelled by the flag
  \<open>subscribed\<close> and the list \<open>reported\<close> of the values it has received so far.
\<close>

record ProgressTracker =
  phase :: phase
  processed :: number
  total :: number
  startTime :: number
  currentItem :: string
  subscribed :: bool
  reported :: "ProgressInfo list"

definition newProgressTracker :: "bool \<Rightarrow> ProgressTracker" where
  "newProgressTracker cb =
     \<lparr>phase = Analyzing, processed = Fin 0, total = Fin 0, startTime = Fin 0, currentItem = [],
      subscribed = cb, reported = []\<rparr>"

text \<open>\<open>estimateTimeRemaining\<close> of utils/batcher; \<open>now\<close> stands for \<open>Date.now()\<close>.\<close>

definition estimateTimeRemaining :: "number \<Rightarrow> number \<Rightarrow> number \<Rightarrow> number \<Rightarrow> number" where
  "estimateTimeRemaining now proc tot start_time =
     (if js_strict_eq proc (Fin 0) then Fin 0
      else
        (let elapsed = js_sub now start_time;
             averageTimePerItem = js_div elapsed proc;
             remaining = js_sub tot proc
         in Math_round (js_mul remaining averageTimePerItem)))"

definition getProgress :: "number \<Rightarrow> ProgressTracker \<Rightarrow> ProgressInfo" where
  "getProgress now t =
     \<lparr>pi_phase = phase t,
      percentage =
        (if js_gt (total t) (Fin 0)
         then Math_round (js_mul (js_div (processed t) (total t)) (Fin 100))
         else Fin 0),
      pi_currentItem = currentItem t,
      pi_processed = processed t,
      pi_total = total t,
      estimatedTimeRemaining = estimateTimeRemaining now (processed t) (total t) (startTime t)\<rparr>"

definition update :: "number \<Rightarrow> ProgressTracker \<Rightarrow> ProgressTracker" where
  "update now t =
     (if subscribed t then t\<lparr>reported := reported t @ [getProgress now t]\<rparr> else t)"

definition start :: "number \<Rightarrow> number \<Rightarrow> phase \<Rightarrow> ProgressTracker \<Rightarrow> ProgressTracker" where
  "start now tot ph t =
     update now (t\<lparr>total := tot, phase := ph, processed := Fin 0, startTime := now\<rparr>)"

definition setPhase :: "number \<Rightarrow> phase \<Rightarrow> ProgressTracker \<Rightarrow> ProgressTracker" where
  "setPhase now ph t = update now (t\<lparr>phase := ph\<rparr>)"

definition updateProgress ::
    "number \<Rightarrow> number \<Rightarrow> string \<Rightarrow> ProgressTracker \<Rightarrow> ProgressTracker" where
  "updateProgress now p item t = update now (t\<lparr>processed := p, currentItem := item\<rparr>)"

definition increment :: "number \<Rightarrow> string \<Rightarrow> ProgressTracker \<Rightarrow> ProgressTracker" where
  "increment now item t =
     update now (t\<lparr>processed := js_add (processed t) (Fin 1), currentItem := item\<rparr>)"

definition complete :: "number \<Rightarrow> ProgressTracker \<Rightarrow> ProgressTracker" where
  "complete now t = update now (t\<lparr>processed := total t\<rparr>)"

text \<open>A method call on a started tracker, with the time at which it happens.\<close>

datatype tracker_call =
    SetPhase number phase
  | UpdateProgress number number string
  | Increment number string
  | Complete number

fun apply_call :: "tracker_call \<Rightarrow> ProgressTracker \<Rightarrow> ProgressTracker" where
  "apply_call (SetPhase now ph) t = setPhase now ph t"
| "apply_call (UpdateProgress now p item) t = updateProgress now p item t"
| "apply_call (Increment now item) t = increment now item t"
| "apply_call (Complete now) t = complete now t"

text \<open>The tracker after each call of a sequence, in order.\<close>

fun run_calls :: "ProgressTracker \<Rightarrow> tracker_call list \<Rightarrow> ProgressTracker list" where
  "run_calls t [] = []"
| "run_calls t (c # cs) = apply_call c t # run_calls (apply_call c t) cs"

text \<open>The percentage that \<open>getProgress\<close> reports when called at time \<open>now\<close>.\<close>

definition percentage_at :: "number \<Rightarrow> ProgressTracker \<Rightarrow> number" where
  "percentage_at now t = percentage (getProgress now t)"

definition started_10 :: ProgressTracker where
  "started_10 = start (Fin 0) (Fin 10) Collecting (newProgressTracker False)"

definition started_40 :: ProgressTracker where
  "started_40 = start (Fin 0) (Fin 40) Collecting (newProgressTracker False)"

section \<open>Staging page resolution (utils/collector)\<close>

datatype transferPageBehavior = Ask | Append | Replace | Timestamp

text \<open>
  A page of the document: its name and the ids of its children. The document is the list
  \<open>figma.root.children\<close>; a page is referred to by its position in that list, so a page
  created by \<open>createPage\<close> (which appends to the list, as the test mock does) has a
  position that no earlier page has.
\<close>

record page =
  pname :: string
  pchildren :: "string list"

type_synonym document = "page list"

definition createPage :: "document \<Rightarrow> nat \<times> document" where
  "createPage doc = (length doc, doc @ [\<lparr>pname = ''New Page'', pchildren = []\<rparr>])"

definition set_page_name :: "nat \<Rightarrow> string \<Rightarrow> document \<Rightarrow> document" where
  "set_page_name i n doc = doc[i := (doc ! i)\<lparr>pname := n\<rparr>]"

text \<open>\<open>figma.root.children.find(page => page.name === 'Transfer')\<close>: the first such page.\<close>

fun find_page :: "string \<Rightarrow> document \<Rightarrow> nat \<Rightarrow> nat option" where
  "find_page n [] i = None"
| "find_page n (p # ps) i = (if pname p = n then Some i else find_page n ps (Suc i))"

text \<open>
  \<open>today\<close> stands for \<open>new Date().toISOString().split('T')[0]\<close>. Removing every child
  of the existing page leaves it without children.
\<close>

definition findOrCreateTransferPage ::
    "transferPageBehavior \<Rightarrow> string \<Rightarrow> document \<Rightarrow> nat \<times> document" where
  "findOrCreateTransferPage behavior today doc =
     (let fresh_transfer =
            (let (i, doc') = createPage doc in (i, set_page_name i ''Transfer'' doc'))
      in case find_page ''Transfer'' doc 0 of
           Some e \<Rightarrow>
             (if behavior = Replace then (e, doc[e := (doc ! e)\<lparr>pchildren := []\<rparr>])
              else if behavior = Append then (e, doc)
              else if behavior = Timestamp then
                (let (i, doc') = createPage doc
                 in (i, set_page_name i (''Transfer '' @ today) doc'))
              else fresh_transfer)
         | None \<Rightarrow> fresh_transfer)"

definition plain_document :: document where
  "plain_document = [\<lparr>pname = ''Page 1'', pchildren = []\<rparr>]"

section \<open>Batch runner (utils/batcher)\<close>

datatype error = Error string

definition cancelled_error :: error where
  "cancelled_error = Error ''Operation cancelled''"

text \<open>
  What a run of \<open>processBatch\<close> does besides returning: the processor calls
  (item and index, in order), the \<open>onProgress\<close> calls, and the number of times it
  yielded with \<open>delay(0)\<close>.
\<close>

record 'a batch_trace =
  invoked :: "('a \<times> nat) list"
  progress :: "(nat \<times> nat) list"
  yields :: nat

definition empty_trace :: "'a batch_trace" where
  "empty_trace = \<lparr>invoked = [], progress = [], yields = 0\<rparr>"

text \<open>\<open>items.slice(a, b)\<close> for indices within the array.\<close>

definition slice :: "'a list \<Rightarrow> nat \<Rightarrow> nat \<Rightarrow> 'a list" where
  "slice xs a b = take (b - a) (drop a xs)"

text \<open>
  The inner loop over one batch. The processor may throw: its result is a sum, and the
  first error ends the run.
\<close>

fun process_items ::
    "('a \<Rightarrow> nat \<Rightarrow> error + 'r) \<Rightarrow> 'a list \<Rightarrow> nat \<Rightarrow> nat \<Rightarrow> 'r list \<Rightarrow> 'a batch_trace
      \<Rightarrow> (error + 'r list) \<times> 'a batch_trace" where
  "process_items processor [] i j results tr = (Inr results, tr)"
| "process_items processor (x # xs) i j results tr =
     (let tr' = tr\<lparr>invoked := invoked tr @ [(x, i + j)]\<rparr>
      in case processor x (i + j) of
           Inl e \<Rightarrow> (Inl e, tr')
         | Inr r \<Rightarrow> process_items processor xs i (Suc j) (results @ [r]) tr')"

text \<open>
  The outer loop. The token is an object that other code may cancel at any time; the loop
  reads it once per iteration, so it is modelled by the values read: \<open>tok k\<close> is what
  the check of iteration \<open>k\<close> sees (\<open>None\<close> when no token was passed). The loop need not
  terminate, so it is a partial function: \<open>None\<close> means that it never returns.
\<close>

definition isCancelled :: "(nat \<Rightarrow> bool) option \<Rightarrow> nat \<Rightarrow> bool" where
  "isCancelled token k = (case token of None \<Rightarrow> False | Some tok \<Rightarrow> tok k)"

partial_function (option) batch_loop ::
    "'a list \<Rightarrow> nat \<Rightarrow> ('a \<Rightarrow> nat \<Rightarrow> error + 'r) \<Rightarrow> bool \<Rightarrow> (nat \<Rightarrow> bool) option
      \<Rightarrow> nat \<Rightarrow> nat \<Rightarrow> 'r list \<Rightarrow> 'a batch_trace
      \<Rightarrow> ((error + 'r list) \<times> 'a batch_trace) option" where
  "batch_loop items batchSize processor onProgress token i k results tr =
     (if i < length items then
        (if isCancelled token k
         then Some (Inl cancelled_error, tr)
         else
           (let batch = slice items i (min (i + batchSize) (length items));
                r = process_items processor batch i 0 results tr
            in if isl (fst r) then Some r
               else
                 (let tr1 = snd r;
                      tr2 = (if onProgress
                             then tr1\<lparr>progress := progress tr1 @
                                    [(min (i + batchSize) (length items), length items)]\<rparr>
                             else tr1);
                      tr3 = (if i + batchSize < length items
                             then tr2\<lparr>yields := Suc (yields tr2)\<rparr> else tr2)
                  in batch_loop items batchSize processor onProgress token
                       (i + batchSize) (Suc k) (projr (fst r)) tr3)))
      else Some (Inr results, tr))"

declare batch_loop.simps [code]

definition processBatch ::
    "'a list \<Rightarrow> nat \<Rightarrow> ('a \<Rightarrow> nat \<Rightarrow> error + 'r) \<Rightarrow> bool \<Rightarrow> (nat \<Rightarrow> bool) option
      \<Rightarrow> ((error + 'r list) \<times> 'a batch_trace) option" where
  "processBatch items batchSize processor onProgress token =
     batch_loop items batchSize processor onProgress token 0 0 [] empty_trace"

text \<open>
  The items of an array paired with their indices, and what a processor that does not
  throw returns for them: the vocabulary of the statements about \<open>processBatch\<close>.
\<close>

definition indexed :: "'a list \<Rightarrow> ('a \<times> nat) list" where
  "indexed xs = zip xs [0..<length xs]"

definition succeeds :: "('a \<Rightarrow> nat \<Rightarrow> error + 'r) \<Rightarrow> 'a \<times> nat \<Rightarrow> bool" where
  "succeeds processor p = (\<not> isl (processor (fst p) (snd p)))"

definition output_of :: "('a \<Rightarrow> nat \<Rightarrow> error + 'r) \<Rightarrow> 'a \<times> nat \<Rightarrow> 'r" where
  "output_of processor p = projr (processor (fst p) (snd p))"

section \<open>Theorems\<close>

subsection \<open>Dependency analyzer: invariants of the component map\<close>

text \<open>
  Every change of the component map is the insertion of an eligible component under a new
  key or a push to the children of an entry. A property of the map that these two steps
  keep is kept by the whole analysis; \<open>Q\<close> is a property of the nodes met on the way.
\<close>

lemma map_invariant_ins:
  assumes "map_invariant rootId options Q I" "I m" "Q c" "\<not> map_has (nid c) m"
    "isLocalComponent rootId c \<or> includeExternal options"
    "visible c \<or> includeHidden options"
    "info = component_info rootId c \<or> info = component_set_info rootId c"
  shows "I (map_set (nid c) info m)"
proof -
  from assms(1) have "\<forall>m c info. I m \<longrightarrow> Q c \<longrightarrow> \<not> map_has (nid c) m
        \<longrightarrow> isLocalComponent rootId c \<or> includeExternal options
        \<longrightarrow> visible c \<or> includeHidden options
        \<longrightarrow> info = component_info rootId c \<or> info = component_set_info rootId c
        \<longrightarrow> I (map_set (nid c) info m)"
    unfolding map_invariant_def by (rule conjunct1)
  then show ?thesis using assms(2-7) by (elim allE [where x = m] allE [where x = c] allE [where x = info] impE)
qed

lemma map_invariant_push:
  assumes "map_invariant rootId options Q I" "I m" "Q owner" "Q d" "size d < size owner"
  shows "I (push_child (nid owner) (nid d) m)"
proof -
  from assms(1) have "\<forall>m owner d. I m \<longrightarrow> Q owner \<longrightarrow> Q d \<longrightarrow> size d < size owner
        \<longrightarrow> I (push_child (nid owner) (nid d) m)"
    unfolding map_invariant_def by (rule conjunct2)
  then show ?thesis using assms(2-5) by blast
qed

lemma closed_child: "closed_under_subnodes Q \<Longrightarrow> Q n \<Longrightarrow> c \<in> set (nchildren n) \<Longrightarrow> Q c"
  unfolding closed_under_subnodes_def by blast

lemma closed_main: "closed_under_subnodes Q \<Longrightarrow> Q n \<Longrightarrow> mainComponent n = Some d \<Longrightarrow> Q d"
  unfolding closed_under_subnodes_def by blast

lemma preorder_closed:
  assumes "closed_under_subnodes Q"
  shows "Q n \<Longrightarrow> x \<in> set (preorder n) \<Longrightarrow> Q x"
proof (induction n rule: preorder.induct)
  case (1 n)
  from "1.prems"(2) consider "x = n" | c where "c \<in> set (nchildren n)" "x \<in> set (preorder c)"
    by (subst (asm) preorder.simps) auto
  then show ?case
  proof cases
    case 1
    then show ?thesis using "1.prems"(1) by simp
  next
    case 2
    then show ?thesis using "1.IH" closed_child [OF assms "1.prems"(1)] by blast
  qed
qed

lemma analysis_invariant:
  assumes cl: "closed_under_subnodes Q" and inv: "map_invariant rootId options Q I"
  shows "I (componentMap st) \<Longrightarrow> Q c
           \<Longrightarrow> I (componentMap (processComponent rootId options c st))"
    and "I (componentMap st) \<Longrightarrow> Q c
           \<Longrightarrow> I (componentMap (processComponentSet rootId options c st))"
    and "I (componentMap st) \<Longrightarrow> Q c \<Longrightarrow> \<forall>i \<in> set ns. Q i \<and> size i \<le> size c
           \<Longrightarrow> I (componentMap (component_instances rootId options c ns st))"
    and "I (componentMap st) \<Longrightarrow> Q c \<Longrightarrow> \<forall>v \<in> set ns. Q v \<and> size v < size c
           \<Longrightarrow> I (componentMap (set_variants rootId options c ns st))"
    and "I (componentMap st) \<Longrightarrow> Q c \<Longrightarrow> \<forall>i \<in> set ns. Q i \<and> size i \<le> size c
           \<Longrightarrow> I (componentMap (set_instances rootId options c ns st))"
proof -
  note Qc = closed_child [OF cl] and Qm = closed_main [OF cl]
  note ins = map_invariant_ins [OF inv] and push = map_invariant_push [OF inv]
  have found_Q: "Q i" if "Q n" "i \<in> set (findComponentInstances n)" for n i
  proof -
    from that(2) have "i \<in> set (preorder n)"
      by (simp add: findComponentInstances_def findNodesByType_preorder)
    with that(1) show ?thesis by (rule preorder_closed [OF cl])
  qed
  have "r = rootId \<Longrightarrow> o' = options \<Longrightarrow> I (componentMap st) \<Longrightarrow> Q c
           \<Longrightarrow> I (componentMap (processComponent r o' c st))"
    and "r = rootId \<Longrightarrow> o' = options \<Longrightarrow> I (componentMap st) \<Longrightarrow> Q c
           \<Longrightarrow> I (componentMap (processComponentSet r o' c st))"
    and "r = rootId \<Longrightarrow> o' = options \<Longrightarrow> I (componentMap st) \<Longrightarrow> Q c
           \<Longrightarrow> \<forall>i \<in> set ns. Q i \<and> size i \<le> size c
           \<Longrightarrow> I (componentMap (component_instances r o' c ns st))"
    and "r = rootId \<Longrightarrow> o' = options \<Longrightarrow> I (componentMap st) \<Longrightarrow> Q c
           \<Longrightarrow> \<forall>v \<in> set ns. Q v \<and> size v < size c
           \<Longrightarrow> I (componentMap (set_variants r o' c ns st))"
    and "r = rootId \<Longrightarrow> o' = options \<Longrightarrow> I (componentMap st) \<Longrightarrow> Q c
           \<Longrightarrow> \<forall>i \<in> set ns. Q i \<and> size i \<le> size c
           \<Longrightarrow> I (componentMap (set_instances r o' c ns st))" for r o'
  proof (induction r o' c st and r o' c st and r o' c ns st
    and r o' c ns st and r o' c ns st
    rule: processComponent_processComponentSet_component_instances_set_variants_set_instances.induct)
    case (1 r o' component st)
    note eq = "1.prems"(1,2) and Ist = "1.prems"(3) and Qc' = "1.prems"(4)
    show ?case
    proof (cases "map_has (nid component) (componentMap st)
      \<or> (\<not> isLocalComponent r component \<and> \<not> includeExternal o')
      \<or> (\<not> visible component \<and> \<not> includeHidden o')")
      case True
      then show ?thesis using Ist by auto
    next
      case False
      let ?st = "st\<lparr>warnings := warnings st @ validateComponent r component,
        componentMap := map_set (nid component) (component_info r component)
          (componentMap st)\<rparr>"
      from False have nh: "\<not> map_has (nid component) (componentMap st)"
        and loc: "isLocalComponent rootId component \<or> includeExternal options"
        and vis: "visible component \<or> includeHidden options" using eq by auto
      have I': "I (componentMap ?st)"
        using ins [OF Ist Qc' nh loc vis, of "component_info rootId component"] eq by simp
      have all: "\<forall>i \<in> set (findComponentInstances component). Q i \<and> size i \<le> size component"
        using found_Q [OF Qc'] size_findComponentInstances by blast
      have "I (componentMap (component_instances r o' component
        (findComponentInstances component) ?st))"
        using "1.IH" [OF _ _ _ eq I' Qc' all] False by blast
      then show ?thesis using False by auto
    qed
  next
    case (2 r o' componentSet st)
    note eq = "2.prems"(1,2) and Ist = "2.prems"(3) and Qc' = "2.prems"(4)
    show ?case
    proof (cases "map_has (nid componentSet) (componentMap st)
      \<or> (\<not> isLocalComponent r componentSet \<and> \<not> includeExternal o')
      \<or> (\<not> visible componentSet \<and> \<not> includeHidden o')")
      case True
      then show ?thesis using Ist by auto
    next
      case False
      let ?st = "st\<lparr>warnings := warnings st @ validateComponent r componentSet,
        componentMap := map_set (nid componentSet) (component_set_info r componentSet)
          (componentMap st)\<rparr>"
      from False have nh: "\<not> map_has (nid componentSet) (componentMap st)"
        and loc: "isLocalComponent rootId componentSet \<or> includeExternal options"
        and vis: "visible componentSet \<or> includeHidden options" using eq by auto
      have I': "I (componentMap ?st)"
        using ins [OF Ist Qc' nh loc vis, of "component_set_info rootId componentSet"] eq
        by simp
      have all: "\<forall>v \<in> set (nchildren componentSet). Q v \<and> size v < size componentSet"
        using Qc [OF Qc'] size_child by blast
      have "I (componentMap (set_variants r o' componentSet (nchildren componentSet) ?st))"
        using "2.IH" [OF _ _ _ eq I' Qc' all] False by blast
      then show ?thesis using False by auto
    qed
  next
    case (3 r o' component st)
    then show ?case by simp
  next
    case (4 r o' component inst rest st)
    note eq = "4.prems"(1,2) and Ist = "4.prems"(3) and Qc' = "4.prems"(4)
    let ?mid = "case getMainComponent inst of
          None \<Rightarrow> st
        | Some mainComp \<Rightarrow>
            (let st' = st\<lparr>componentMap :=
                          push_child (nid component) (nid mainComp) (componentMap st)\<rparr>
             in if ntype mainComp = COMPONENT
                then processComponent r o' mainComp st'
                else if ntype mainComp = COMPONENT_SET
                then processComponentSet r o' mainComp st'
                else st')"
    have mid: "I (componentMap ?mid)"
    proof (cases "getMainComponent inst")
      case None
      then show ?thesis using Ist by simp
    next
      case (Some d)
      have Qi: "Q inst" and le: "size inst \<le> size component" using "4.prems"(5) by simp_all
      have Qd: "Q d" using Qm [OF Qi] Some by (simp add: getMainComponent_def)
      have lt: "size d < size component"
        using size_main [of inst d] Some le by (simp add: getMainComponent_def)
      let ?st' = "st\<lparr>componentMap := push_child (nid component) (nid d) (componentMap st)\<rparr>"
      have I': "I (componentMap ?st')"
        using push [OF Ist Qc' Qd lt] by simp
      show ?thesis
        using Some I' "4.IH"(1) [OF Some refl _ eq I' Qd] "4.IH"(2) [OF Some refl _ _ eq I' Qd]
        by (auto simp: Let_def)
    qed
    have "I (componentMap (component_instances r o' component rest ?mid))"
      using "4.IH"(3) [OF eq mid Qc'] "4.prems"(5) by simp
    then show ?case by simp
  next
    case (5 r o' componentSet st)
    then show ?case by simp
  next
    case (6 r o' componentSet variant rest st)
    note eq = "6.prems"(1,2) and Ist = "6.prems"(3) and Qc' = "6.prems"(4)
    let ?mid = "if ntype variant = COMPONENT
        then set_instances r o' componentSet (findComponentInstances variant) st
        else st"
    have Qv: "Q variant" and lt: "size variant < size componentSet"
      using "6.prems"(5) by simp_all
    have all: "\<forall>i \<in> set (findComponentInstances variant).
        Q i \<and> size i \<le> size componentSet"
      using found_Q [OF Qv] size_findComponentInstances [of _ variant] lt
      by (meson le_trans less_imp_le)
    have mid: "I (componentMap ?mid)"
      using "6.IH"(1) [OF _ eq Ist Qc' all] Ist by simp
    have "I (componentMap (set_variants r o' componentSet rest ?mid))"
      using "6.IH"(2) [OF eq mid Qc'] "6.prems"(5) by simp
    then show ?case by simp
  next
    case (7 r o' componentSet st)
    then show ?case by simp
  next
    case (8 r o' componentSet inst rest st)
    note eq = "8.prems"(1,2) and Ist = "8.prems"(3) and Qc' = "8.prems"(4)
    let ?mid = "case getMainComponent inst of
          None \<Rightarrow> st
        | Some mainComp \<Rightarrow>
            (if \<not> children_include (nid componentSet) (nid mainComp) (componentMap st)
             then
               (let st' = st\<lparr>componentMap :=
                            push_child (nid componentSet) (nid mainComp) (componentMap st)\<rparr>
                in if ntype mainComp = COMPONENT
                   then processComponent r o' mainComp st'
                   else if ntype mainComp = COMPONENT_SET
                   then processComponentSet r o' mainComp st'
                   else st')
             else st)"
    have mid: "I (componentMap ?mid)"
    proof (cases "getMainComponent inst")
      case None
      then show ?thesis using Ist by simp
    next
      case (Some d)
      have Qi: "Q inst" and le: "size inst \<le> size componentSet"
        using "8.prems"(5) by simp_all
      have Qd: "Q d" using Qm [OF Qi] Some by (simp add: getMainComponent_def)
      have lt: "size d < size componentSet"
        using size_main [of inst d] Some le by (simp add: getMainComponent_def)
      let ?st' = "st\<lparr>componentMap :=
          push_child (nid componentSet) (nid d) (componentMap st)\<rparr>"
      have I': "I (componentMap ?st')"
        using push [OF Ist Qc' Qd lt] by simp
      show ?thesis
      proof (cases "children_include (nid componentSet) (nid d) (componentMap st)")
        case True
        then show ?thesis using Some Ist by simp
      next
        case False
        show ?thesis
          using Some False I' "8.IH"(1) [OF Some False refl _ eq I' Qd]
            "8.IH"(2) [OF Some False refl _ _ eq I' Qd]
          by (auto simp: Let_def)
      qed
    qed
    have "I (componentMap (set_instances r o' componentSet rest ?mid))"
      using "8.IH"(3) [OF eq mid Qc'] "8.prems"(5) by simp
    then show ?case by simp
  qed
  from this [OF refl refl]
  show "I (componentMap st) \<Longrightarrow> Q c
           \<Longrightarrow> I (componentMap (processComponent rootId options c st))"
    and "I (componentMap st) \<Longrightarrow> Q c
           \<Longrightarrow> I (componentMap (processComponentSet rootId options c st))"
    and "I (componentMap st) \<Longrightarrow> Q c \<Longrightarrow> \<forall>i \<in> set ns. Q i \<and> size i \<le> size c
           \<Longrightarrow> I (componentMap (component_instances rootId options c ns st))"
    and "I (componentMap st) \<Longrightarrow> Q c \<Longrightarrow> \<forall>v \<in> set ns. Q v \<and> size v < size c
           \<Longrightarrow> I (componentMap (set_variants rootId options c ns st))"
    and "I (componentMap st) \<Longrightarrow> Q c \<Longrightarrow> \<forall>i \<in> set ns. Q i \<and> size i \<le> size c
           \<Longrightarrow> I (componentMap (set_instances rootId options c ns st))"
    by blast+
qed

lemma processInstance_invariant:
  assumes cl: "closed_under_subnodes Q" and inv: "map_invariant rootId options Q I"
    and "I (componentMap st)" "Q inst"
  shows "I (componentMap (processInstance rootId options inst st))"
proof (cases "mainComponent inst")
  case None
  then show ?thesis using assms(3) by (simp add: processInstance_def validateMainComponent_def)
next
  case (Some d)
  let ?st1 = "st\<lparr>processedInstances := processedInstances st @ [nid inst]\<rparr>"
  have I1: "I (componentMap ?st1)" using assms(3) by simp
  have Qd: "Q d" using closed_main [OF cl assms(4) Some] .
  have "I (componentMap (processComponent rootId options d ?st1))"
    and "I (componentMap (processComponentSet rootId options d ?st1))"
    using analysis_invariant(1,2) [OF cl inv I1 Qd] by blast+
  then show ?thesis
    using Some assms(3) by (simp add: processInstance_def validateMainComponent_def Let_def)
qed

lemma processNode_invariant:
  assumes cl: "closed_under_subnodes Q" and inv: "map_invariant rootId options Q I"
    and "I (componentMap st)" "Q node"
  shows "I (componentMap (processNode rootId options node st))"
proof -
  let ?cb = "\<lambda>child s.
             if ntype child = INSTANCE \<and> nid child \<notin> set (processedInstances s)
             then processInstance rootId options child s else s"
  have step: "I (componentMap (fold ?cb ns s))"
    if "I (componentMap s)" "\<forall>n \<in> set ns. Q n" for ns s
    using that
    by (induction ns arbitrary: s) (simp_all add: processInstance_invariant [OF cl inv])
  have "\<forall>n \<in> set (preorder node). Q n"
    using preorder_closed [OF cl assms(4)] by blast
  then have "I (componentMap (traverseNode node ?cb st))"
    unfolding traverseNode_preorder using step assms(3) by blast
  then show ?thesis
    using analysis_invariant(1,2) [OF cl inv assms(3,4)]
      processInstance_invariant [OF cl inv assms(3,4)]
    by (simp add: processNode_def)
qed

lemma analyzeSelection_invariant:
  assumes cl: "closed_under_subnodes Q" and inv: "map_invariant rootId options Q I"
    and "I []" "\<forall>n \<in> set selection. Q n"
  shows "I (components (analyzeSelection rootId selection options))"
proof -
  have "I (componentMap (fold (processNode rootId options) ns s))"
    if "I (componentMap s)" "\<forall>n \<in> set ns. Q n" for ns s
    using that
    by (induction ns arbitrary: s) (simp_all add: processNode_invariant [OF cl inv])
  then show ?thesis
    using assms(3,4) by (simp add: analyzeSelection_def createEmptyResult_def Let_def)
qed

lemma map_set_new: "\<not> map_has k m \<Longrightarrow> map_set k v m = m @ [(k, v)]"
  by (induction m) (auto simp: map_has_def)

lemma map_fst_push_child: "map fst (push_child k c m) = map fst m"
  by (simp add: push_child_def)

lemma map_has_push_child: "map_has k' (push_child k c m) = map_has k' m"
  by (simp add: map_has_def map_fst_push_child)

lemma distinct_keys_invariant:
  "map_invariant rootId options (\<lambda>n. True) (\<lambda>m. distinct (map fst m))"
  unfolding map_invariant_def
  by (auto simp: map_set_new map_fst_push_child map_has_def)

lemma key_present_invariant:
  "map_invariant rootId options (\<lambda>n. True) (map_has k)"
  unfolding map_invariant_def
  by (auto simp: map_set_new map_has_push_child) (auto simp: map_has_def)

lemma all_local_invariant:
  "\<not> includeExternal options \<Longrightarrow>
   map_invariant rootId options (\<lambda>n. True) (\<lambda>m. \<forall>p \<in> set m. isLocal (snd p))"
  unfolding map_invariant_def
  by (auto simp: map_set_new push_child_def component_info_def component_set_info_def)

lemma closed_True: "closed_under_subnodes (\<lambda>n. True)"
  by (simp add: closed_under_subnodes_def)

text \<open>
  C8. When \<open>includeExternal\<close> is false, every entry of the components map that
  \<open>analyzeSelection\<close> returns has \<open>isLocal = true\<close>, for every selection.
\<close>

theorem local_only:
  assumes "\<not> includeExternal options"
  shows "\<forall>p \<in> set (components (analyzeSelection rootId selection options)). isLocal (snd p)"
  using analyzeSelection_invariant [OF closed_True all_local_invariant [OF assms], of selection]
  by simp

theorem local_only_witness:
  "map (isLocal \<circ> snd)
     (components (analyzeSelection ''doc123'' [button, externalWidget] defaultOptions))
   = [True, True]"
proof -
  have h: "\<not> includeExternal defaultOptions" by (simp add: defaultOptions_def)
  show ?thesis
    using local_only [OF h, of "''doc123''" "[button, externalWidget]"] by code_simp
qed

text \<open>
  C1 (as amended). A selection of one directly selected external component, analysed with
  the default options, gives an empty components map and an empty warnings list: the
  component is skipped before \<open>validateComponent\<close> runs.
\<close>

theorem external_skipped_without_warning:
  assumes "ntype c = COMPONENT" "\<not> isLocalComponent rootId c"
  shows "components (analyzeSelection rootId [c] defaultOptions) = []
       \<and> result_warnings (analyzeSelection rootId [c] defaultOptions) = []"
  using assms
  by (simp add: analyzeSelection_def processNode_def defaultOptions_def validateSelection_def
      map_has_def)

theorem external_skipped_without_warning_witness:
  "components (analyzeSelection ''doc123'' [externalWidget] defaultOptions) = []
   \<and> result_warnings (analyzeSelection ''doc123'' [externalWidget] defaultOptions) = []"
  using external_skipped_without_warning [of externalWidget "''doc123''"]
  by (simp add: externalWidget_def mk_component_def isLocalComponent_def)

text \<open>
  C1 as stated expects one \<open>EXTERNAL_DEPENDENCY\<close> warning for the selection
  \<open>[ExternalWidget(key = "otherdoc_x")]\<close>. The warnings list is empty.
\<close>

theorem external_selection_has_no_warning:
  "result_warnings (analyzeSelection ''doc123'' [externalWidget] defaultOptions) = []"
  by code_simp

text \<open>
  C2. The property: the \<open>children\<close> of the entry of a plain component are free of
  duplicates, an id being pushed only when it is not listed yet. The code does not have it:
  a component \<open>Button\<close> with two nested instances of \<open>Icon\<close> gets the children
  \<open>[icon, icon]\<close>, since \<open>processComponent\<close> pushes without the \<open>includes\<close>
  test that \<open>processComponentSet\<close> makes; the same two instances inside a variant of a
  set give \<open>[icon]\<close>.
\<close>

theorem component_children_repeat:
  "map_option cchildren
     (map_of (components (analyzeSelection ''doc123'' [button] defaultOptions)) ''button'')
     = Some [''icon'', ''icon'']
   \<and> map_option cchildren
     (map_of (components (analyzeSelection ''doc123'' [buttonVariants] defaultOptions)) ''varSet'')
     = Some [''icon'']"
  by code_simp

lemma map_has_map_set: "map_has k (map_set k v m)"
  by (induction m) (auto simp: map_has_def)

lemma processComponent_adds:
  assumes "isLocalComponent rootId c \<or> includeExternal options"
    and "visible c \<or> includeHidden options"
  shows "map_has (nid c) (componentMap (processComponent rootId options c st))"
    and "map_has (nid c) (componentMap (processComponentSet rootId options c st))"
proof -
  note inv = analysis_invariant [OF closed_True key_present_invariant [of rootId options "nid c"]]
  let ?st1 = "st\<lparr>warnings := warnings st @ validateComponent rootId c,
        componentMap := map_set (nid c) (component_info rootId c) (componentMap st)\<rparr>"
  let ?st2 = "st\<lparr>warnings := warnings st @ validateComponent rootId c,
        componentMap := map_set (nid c) (component_set_info rootId c) (componentMap st)\<rparr>"
  have "map_has (nid c) (componentMap (component_instances rootId options c
      (findComponentInstances c) ?st1))"
    by (rule inv(3)) (simp_all add: map_has_map_set size_findComponentInstances)
  then show "map_has (nid c) (componentMap (processComponent rootId options c st))"
    using assms by auto
  have "map_has (nid c) (componentMap (set_variants rootId options c (nchildren c) ?st2))"
    by (rule inv(4)) (simp_all add: map_has_map_set size_child)
  then show "map_has (nid c) (componentMap (processComponentSet rootId options c st))"
    using assms by auto
qed

lemma distinct_filter_one:
  "distinct (map fst m) \<Longrightarrow> map_has k m \<Longrightarrow> length (filter (\<lambda>p. fst p = k) m) = 1"
proof (induction m)
  case Nil
  then show ?case by (simp add: map_has_def)
next
  case (Cons p m)
  show ?case
  proof (cases "fst p = k")
    case True
    have "k \<notin> fst ` set m" using Cons.prems(1) True by auto
    then have "filter (\<lambda>q. fst q = k) m = []"
      by (auto simp: filter_empty_conv)
    then show ?thesis using True by simp
  next
    case False
    then show ?thesis using Cons by (simp add: map_has_def)
  qed
qed

subsection \<open>Dependency forest\<close>

text \<open>
  The reconstruction appends to the processed ids exactly the ids of the nodes it builds,
  in pre-order. Every node it adds has all its children that are keys of the map among
  the processed ids at the end; with a map whose child references descend along a rank,
  this reaches every entry.
\<close>

declare buildDependencyNode.simps [simp del] buildDependencies.simps(2) [simp del]

lemma forest_infos_simps [simp]:
  "forest_infos [] = []" "forest_infos (t # ts) = node_infos t @ forest_infos ts"
  "forest_infos (ts @ us) = forest_infos ts @ forest_infos us"
  by (simp_all add: forest_infos_def)

lemma forest_ids_simps [simp]:
  "forest_ids [] = []" "forest_ids (t # ts) = map cid (node_infos t) @ forest_ids ts"
  "forest_ids (ts @ us) = forest_ids ts @ forest_ids us"
  by (simp_all add: forest_ids_def)

lemma keyed_map_of: "keyed m \<Longrightarrow> map_of m i = Some info \<Longrightarrow> cid info = i"
  by (force simp: keyed_def dest: map_of_SomeD)

lemma map_has_map_of: "map_has k m \<longleftrightarrow> map_of m k \<noteq> None"
  by (simp add: map_has_def map_of_eq_None_iff)

lemma node_None:
  "map_of m i = None \<Longrightarrow> buildDependencyNode i m P = (None, P)"
  by (simp add: buildDependencyNode.simps)

lemma node_Some:
  "map_of m i = Some info \<Longrightarrow>
   buildDependencyNode i m P =
     (Some (DependencyNode info (fst (buildDependencies (cchildren info) m (P @ [i])))),
      snd (buildDependencies (cchildren info) m (P @ [i])))"
  by (simp add: buildDependencyNode.simps Let_def)

lemma deps_seen:
  "c \<in> set P \<Longrightarrow> buildDependencies (c # cs) m P = buildDependencies cs m P"
  by (simp add: buildDependencies.simps)

lemma deps_new:
  "c \<notin> set P \<Longrightarrow>
   buildDependencies (c # cs) m P =
     (forest_of (fst (buildDependencyNode c m P))
        @ fst (buildDependencies cs m (snd (buildDependencyNode c m P))),
      snd (buildDependencies cs m (snd (buildDependencyNode c m P))))"
  by (simp add: buildDependencies.simps Let_def forest_of_def split: option.splits)

lemma forest_of_simps [simp]: "forest_of None = []" "forest_of (Some t) = [t]"
  by (simp_all add: forest_of_def)

lemma build_appends:
  "keyed m \<Longrightarrow>
     snd (buildDependencyNode i m P)
       = P @ forest_ids (forest_of (fst (buildDependencyNode i m P)))"
  "keyed m \<Longrightarrow>
     snd (buildDependencies cs m P) = P @ forest_ids (fst (buildDependencies cs m P))"
proof (induction i m P and cs m P rule: buildDependencyNode_buildDependencies.induct)
  case (1 compId m processedIds)
  show ?case
  proof (cases "map_of m compId")
    case None
    then show ?thesis by (simp add: node_None)
  next
    case (Some info)
    then show ?thesis
      using "1.IH" [OF Some "1.prems"] keyed_map_of [OF "1.prems" Some]
      by (simp add: node_Some forest_ids_def forest_infos_def)
  qed
next
  case (2 m processedIds)
  then show ?case by simp
next
  case (3 childId rest m processedIds)
  show ?case
  proof (cases "childId \<in> set processedIds")
    case True
    then show ?thesis using "3.IH"(3) "3.prems" by (simp add: deps_seen)
  next
    case False
    then show ?thesis
      using "3.IH"(1) [OF False "3.prems"] "3.IH"(2) [OF False refl "3.prems"]
      by (simp add: deps_new)
  qed
qed

lemma build_grows:
  assumes "keyed m"
  shows "set P \<subseteq> set (snd (buildDependencyNode i m P))"
    and "set P \<subseteq> set (snd (buildDependencies cs m P))"
  using build_appends(1) [OF assms, of i P] build_appends(2) [OF assms, of cs P]
  by (metis set_append sup_ge1)+

lemma build_distinct:
  "keyed m \<Longrightarrow> distinct P \<Longrightarrow> i \<notin> set P \<Longrightarrow> distinct (snd (buildDependencyNode i m P))"
  "keyed m \<Longrightarrow> distinct P \<Longrightarrow> distinct (snd (buildDependencies cs m P))"
proof (induction i m P and cs m P rule: buildDependencyNode_buildDependencies.induct)
  case (1 compId m processedIds)
  show ?case
  proof (cases "map_of m compId")
    case None
    then show ?thesis using "1.prems" by (simp add: node_None)
  next
    case (Some info)
    then show ?thesis
      using "1.IH" [OF Some "1.prems"(1)] "1.prems" by (simp add: node_Some)
  qed
next
  case (2 m processedIds)
  then show ?case by simp
next
  case (3 childId rest m processedIds)
  show ?case
  proof (cases "childId \<in> set processedIds")
    case True
    then show ?thesis using "3.IH"(3) "3.prems" by (simp add: deps_seen)
  next
    case False
    then show ?thesis
      using "3.IH"(1) [OF False "3.prems" False]
        "3.IH"(2) [OF False refl "3.prems"(1)]
      by (simp add: deps_new)
  qed
qed

lemma build_entries:
  "keyed m \<Longrightarrow>
     \<forall>info \<in> set (forest_infos (forest_of (fst (buildDependencyNode i m P)))).
        map_of m (cid info) = Some info"
  "keyed m \<Longrightarrow>
     \<forall>info \<in> set (forest_infos (fst (buildDependencies cs m P))).
        map_of m (cid info) = Some info"
proof (induction i m P and cs m P rule: buildDependencyNode_buildDependencies.induct)
  case (1 compId m processedIds)
  show ?case
  proof (cases "map_of m compId")
    case None
    then show ?thesis by (simp add: node_None)
  next
    case (Some info)
    then show ?thesis
      using "1.IH" [OF Some "1.prems"] keyed_map_of [OF "1.prems" Some]
      by (simp add: node_Some forest_infos_def)
  qed
next
  case (2 m processedIds)
  then show ?case by simp
next
  case (3 childId rest m processedIds)
  show ?case
  proof (cases "childId \<in> set processedIds")
    case True
    then show ?thesis using "3.IH"(3) "3.prems" by (simp add: deps_seen)
  next
    case False
    then show ?thesis
      using "3.IH"(1) [OF False "3.prems"] "3.IH"(2) [OF False refl "3.prems"]
      by (auto simp: deps_new)
  qed
qed

lemma closed_in_mono: "closed_in m X P \<Longrightarrow> P \<subseteq> P' \<Longrightarrow> closed_in m X P'"
  unfolding closed_in_def by blast

lemma closed_in_Un: "closed_in m X P \<Longrightarrow> closed_in m Y P \<Longrightarrow> closed_in m (X \<union> Y) P"
  unfolding closed_in_def by blast

lemma closed_in_subset: "closed_in m X P \<Longrightarrow> Y \<subseteq> X \<Longrightarrow> closed_in m Y P"
  unfolding closed_in_def by blast

lemma build_closed:
  "keyed m \<Longrightarrow>
     closed_in m (set (snd (buildDependencyNode i m P)) - set P)
       (set (snd (buildDependencyNode i m P)))"
  "keyed m \<Longrightarrow>
     closed_in m (set (snd (buildDependencies cs m P)) - set P)
       (set (snd (buildDependencies cs m P)))
     \<and> (\<forall>c \<in> set cs. map_has c m \<longrightarrow> c \<in> set (snd (buildDependencies cs m P)))"
proof (induction i m P and cs m P rule: buildDependencyNode_buildDependencies.induct)
  case (1 compId m processedIds)
  show ?case
  proof (cases "map_of m compId")
    case None
    then show ?thesis by (simp add: node_None closed_in_def)
  next
    case (Some info)
    let ?P' = "snd (buildDependencies (cchildren info) m (processedIds @ [compId]))"
    from "1.IH" [OF Some "1.prems"]
    have a: "closed_in m (set ?P' - set (processedIds @ [compId])) (set ?P')"
      and b: "\<forall>c \<in> set (cchildren info). map_has c m \<longrightarrow> c \<in> set ?P'" by simp_all
    have "closed_in m {compId} (set ?P')"
      using b Some by (simp add: closed_in_def)
    with a have "closed_in m ((set ?P' - set (processedIds @ [compId])) \<union> {compId})
        (set ?P')"
      by (rule closed_in_Un)
    then have "closed_in m (set ?P' - set processedIds) (set ?P')"
      by (rule closed_in_subset) auto
    then show ?thesis using Some by (simp add: node_Some)
  qed
next
  case (2 m processedIds)
  then show ?case by (simp add: closed_in_def)
next
  case (3 childId rest m processedIds)
  show ?case
  proof (cases "childId \<in> set processedIds")
    case True
    then show ?thesis
      using "3.IH"(3) [OF _ "3.prems"] build_grows(2) [OF "3.prems", of processedIds rest]
      by (auto simp: deps_seen)
  next
    case False
    let ?P1 = "snd (buildDependencyNode childId m processedIds)"
    let ?P2 = "snd (buildDependencies rest m ?P1)"
    have g1: "set processedIds \<subseteq> set ?P1" and g2: "set ?P1 \<subseteq> set ?P2"
      using build_grows [OF "3.prems"] by blast+
    have c1: "closed_in m (set ?P1 - set processedIds) (set ?P2)"
      using "3.IH"(1) [OF False "3.prems"] g2 by (rule closed_in_mono)
    from "3.IH"(2) [OF False refl "3.prems"]
    have c2: "closed_in m (set ?P2 - set ?P1) (set ?P2)"
      and r: "\<forall>c \<in> set rest. map_has c m \<longrightarrow> c \<in> set ?P2" by simp_all
    have "closed_in m ((set ?P1 - set processedIds) \<union> (set ?P2 - set ?P1)) (set ?P2)"
      using c1 c2 by (rule closed_in_Un)
    then have c: "closed_in m (set ?P2 - set processedIds) (set ?P2)"
      by (rule closed_in_subset) auto
    have "childId \<in> set ?P1" if "map_has childId m"
    proof -
      from that obtain info where "map_of m childId = Some info"
        by (auto simp: map_has_map_of)
      then show ?thesis
        using build_grows(2) [OF "3.prems", of "processedIds @ [childId]"]
        by (auto simp: node_Some)
    qed
    then have "map_has childId m \<longrightarrow> childId \<in> set ?P2" using g2 by blast
    with c r show ?thesis using False by (simp add: deps_new)
  qed
qed

lemma children_in_all:
  "map_of m i = Some info \<Longrightarrow> set (cchildren info) \<subseteq> set (all_child_ids m)"
  by (force simp: all_child_ids_def dest: map_of_SomeD)

lemma build_reach:
  "keyed m \<Longrightarrow>
     set (snd (buildDependencyNode i m P)) \<subseteq> set P \<union> {i} \<union> set (all_child_ids m)"
  "keyed m \<Longrightarrow> set cs \<subseteq> set (all_child_ids m) \<Longrightarrow>
     set (snd (buildDependencies cs m P)) \<subseteq> set P \<union> set (all_child_ids m)"
proof (induction i m P and cs m P rule: buildDependencyNode_buildDependencies.induct)
  case (1 compId m processedIds)
  show ?case
  proof (cases "map_of m compId")
    case None
    then show ?thesis by (auto simp: node_None)
  next
    case (Some info)
    then show ?thesis
      using "1.IH" [OF Some "1.prems" children_in_all [OF Some]]
      by (auto simp: node_Some)
  qed
next
  case (2 m processedIds)
  then show ?case by simp
next
  case (3 childId rest m processedIds)
  show ?case
  proof (cases "childId \<in> set processedIds")
    case True
    then show ?thesis using "3.IH"(3) "3.prems" by (simp add: deps_seen)
  next
    case False
    have "set (snd (buildDependencyNode childId m processedIds))
        \<subseteq> set processedIds \<union> set (all_child_ids m)"
      using "3.IH"(1) [OF False "3.prems"(1)] "3.prems"(2) by auto
    moreover have "set (snd (buildDependencies rest m
          (snd (buildDependencyNode childId m processedIds))))
        \<subseteq> set (snd (buildDependencyNode childId m processedIds)) \<union> set (all_child_ids m)"
      using "3.IH"(2) [OF False refl "3.prems"(1)] "3.prems"(2) by simp
    ultimately show ?thesis using False by (auto simp: deps_new)
  qed
qed

lemma build_roots_spec:
  assumes "keyed m"
  shows "\<forall>info \<in> set infos. map_of m (cid info) = Some info
    \<Longrightarrow> distinct (map cid infos)
    \<Longrightarrow> set P \<inter> set (map cid infos) \<subseteq> set (all_child_ids m)
    \<Longrightarrow> forest_ids tree = P \<Longrightarrow> distinct P \<Longrightarrow> closed_in m (set P) (set P)
    \<Longrightarrow> \<forall>info \<in> set (forest_infos tree). map_of m (cid info) = Some info
    \<Longrightarrow> root_ids (build_roots infos m (all_child_ids m) tree P)
          = root_ids tree @ filter (\<lambda>k. k \<notin> set (all_child_ids m)) (map cid infos)
        \<and> distinct (forest_ids (build_roots infos m (all_child_ids m) tree P))
        \<and> closed_in m (set (forest_ids (build_roots infos m (all_child_ids m) tree P)))
             (set (forest_ids (build_roots infos m (all_child_ids m) tree P)))
        \<and> set P \<subseteq> set (forest_ids (build_roots infos m (all_child_ids m) tree P))
        \<and> (\<forall>k \<in> set (map cid infos). k \<notin> set (all_child_ids m) \<longrightarrow>
              k \<in> set (forest_ids (build_roots infos m (all_child_ids m) tree P)))
        \<and> (\<forall>info \<in> set (forest_infos (build_roots infos m (all_child_ids m) tree P)).
              map_of m (cid info) = Some info)"
proof (induction infos arbitrary: tree P)
  case Nil
  then show ?case by simp
next
  case (Cons info rest)
  let ?A = "all_child_ids m"
  have look: "map_of m (cid info) = Some info" using Cons.prems(1) by simp
  have rest_look: "\<forall>i \<in> set rest. map_of m (cid i) = Some i" using Cons.prems(1) by simp
  have rest_dist: "distinct (map cid rest)" and notin: "cid info \<notin> set (map cid rest)"
    using Cons.prems(2) by simp_all
  show ?case
  proof (cases "cid info \<in> set ?A")
    case True
    have inter: "set P \<inter> set (map cid rest) \<subseteq> set ?A" using Cons.prems(3) by auto
    show ?thesis
      using Cons.IH [OF rest_look rest_dist inter Cons.prems(4-7)] True by simp
  next
    case False
    then have fresh: "cid info \<notin> set P" using Cons.prems(3) by auto
    let ?r = "buildDependencyNode (cid info) m P"
    let ?deps = "fst (buildDependencies (cchildren info) m (P @ [cid info]))"
    let ?t = "DependencyNode info ?deps"
    let ?P' = "snd ?r"
    have r: "fst ?r = Some ?t" by (simp add: node_Some [OF look])
    have P': "?P' = P @ forest_ids [?t]"
      using build_appends(1) [OF assms, of "cid info" P] r by simp
    have ids: "forest_ids (tree @ [?t]) = ?P'"
      using P' Cons.prems(4) by simp
    have dist: "distinct ?P'"
      using build_distinct(1) [OF assms Cons.prems(5) fresh] .
    have "closed_in m (set P) (set ?P')"
      using Cons.prems(6) build_grows(1) [OF assms] by (rule closed_in_mono)
    moreover have "closed_in m (set ?P' - set P) (set ?P')"
      using build_closed(1) [OF assms] .
    ultimately have "closed_in m (set P \<union> (set ?P' - set P)) (set ?P')"
      by (rule closed_in_Un)
    then have closed: "closed_in m (set ?P') (set ?P')"
      by (rule closed_in_subset) auto
    have reach: "set ?P' \<subseteq> set P \<union> {cid info} \<union> set ?A"
      using build_reach(1) [OF assms] .
    have inter: "set ?P' \<inter> set (map cid rest) \<subseteq> set ?A"
    proof
      fix x assume "x \<in> set ?P' \<inter> set (map cid rest)"
      then have x1: "x \<in> set ?P'" and x2: "x \<in> set (map cid rest)" by auto
      from x2 notin have "x \<noteq> cid info" by metis
      with x1 reach have "x \<in> set P \<or> x \<in> set ?A" by auto
      then show "x \<in> set ?A" using Cons.prems(3) x2 by auto
    qed
    have entries: "\<forall>i \<in> set (forest_infos (tree @ [?t])). map_of m (cid i) = Some i"
      using Cons.prems(7) build_entries(1) [OF assms, of "cid info" P] r by auto
    have here: "cid info \<in> set ?P'" using P' by (simp add: forest_ids_def forest_infos_def)
    have sub: "set P \<subseteq> set ?P'" using build_grows(1) [OF assms] .
    have step: "build_roots (info # rest) m ?A tree P = build_roots rest m ?A (tree @ [?t]) ?P'"
      using False fresh r by (simp add: Let_def)
    show ?thesis
      unfolding step
      using Cons.IH [OF rest_look rest_dist inter ids dist closed entries] False here sub
      by (auto simp: root_ids_def)
  qed
qed

lemma keyed_ids: "keyed m \<Longrightarrow> map cid (map snd m) = map fst m"
  by (induction m) (simp_all add: keyed_def)

lemma keyed_ids_comp: "keyed m \<Longrightarrow> map (cid \<circ> snd) m = map fst m"
  by (induction m) (simp_all add: keyed_def)

lemma forest_complete:
  assumes k: "keyed m" and d: "distinct (map fst m)" and r: "ranked r m"
  shows "root_ids (buildDependencyTree m)
           = filter (\<lambda>k. k \<notin> set (all_child_ids m)) (map fst m)
       \<and> distinct (forest_ids (buildDependencyTree m))
       \<and> set (forest_ids (buildDependencyTree m)) = set (map fst m)
       \<and> (\<forall>info \<in> set (forest_infos (buildDependencyTree m)).
             map_of m (cid info) = Some info)"
proof -
  let ?f = "buildDependencyTree m"
  let ?A = "all_child_ids m"
  have look: "\<forall>info \<in> set (map snd m). map_of m (cid info) = Some info"
  proof
    fix info assume "info \<in> set (map snd m)"
    then obtain key where mem: "(key, info) \<in> set m" by auto
    then have "cid info = key" using k by (auto simp: keyed_def)
    moreover have "map_of m key = Some info" using d mem by (rule map_of_is_SomeI)
    ultimately show "map_of m (cid info) = Some info" by simp
  qed
  have dist: "distinct (map cid (map snd m))" unfolding keyed_ids [OF k] using d .
  from build_roots_spec [OF k look dist, of "[]" "[]"]
  have roots: "root_ids ?f = filter (\<lambda>k. k \<notin> set ?A) (map fst m)"
    and dis: "distinct (forest_ids ?f)"
    and closed: "closed_in m (set (forest_ids ?f)) (set (forest_ids ?f))"
    and top: "\<forall>key \<in> set (map fst m). key \<notin> set ?A \<longrightarrow> key \<in> set (forest_ids ?f)"
    and entries: "\<forall>info \<in> set (forest_infos ?f). map_of m (cid info) = Some info"
    by (simp_all add: buildDependencyTree_def closed_in_def root_ids_def
        keyed_ids_comp [OF k])
  have sub: "set (forest_ids ?f) \<subseteq> set (map fst m)"
  proof
    fix x assume "x \<in> set (forest_ids ?f)"
    then obtain info where "info \<in> set (forest_infos ?f)" "cid info = x"
      by (auto simp: forest_ids_def)
    with entries have "map_of m x = Some info" by auto
    then have "(x, info) \<in> set m" by (rule map_of_SomeD)
    then show "x \<in> set (map fst m)" by force
  qed
  have sup: "set (map fst m) \<subseteq> set (forest_ids ?f)"
  proof (rule ccontr)
    assume "\<not> set (map fst m) \<subseteq> set (forest_ids ?f)"
    then have ne: "set (map fst m) - set (forest_ids ?f) \<noteq> {}" by auto
    let ?U = "set (map fst m) - set (forest_ids ?f)"
    have fin: "finite (r ` ?U)" by simp
    from ne have "Max (r ` ?U) \<in> r ` ?U" by (intro Max_in fin) simp
    then obtain x where mx: "Max (r ` ?U) = r x" and x: "x \<in> ?U" by (rule imageE)
    have maxi: "\<forall>y \<in> ?U. r y \<le> r x"
      using Max_ge [OF fin] unfolding mx by blast
    from x top have "x \<in> set ?A" by auto
    then obtain p where p: "p \<in> set m" and xc: "x \<in> set (cchildren (snd p))"
      by (auto simp: all_child_ids_def)
    have xk: "map_has x m" using x by (simp add: map_has_def)
    with r p xc have lt: "r x < r (fst p)" by (auto simp: ranked_def)
    have "fst p \<in> set (map fst m)" using p by simp
    with lt maxi have inP: "fst p \<in> set (forest_ids ?f)" by force
    have "map_of m (fst p) = Some (snd p)" using d p by (intro map_of_is_SomeI) simp_all
    with closed inP xc xk have "x \<in> set (forest_ids ?f)"
      by (auto simp: closed_in_def)
    with x show False by simp
  qed
  from roots dis sub sup entries show ?thesis by blast
qed

declare subnodes.simps [simp del]

lemma subnodes_self: "n \<in> set (subnodes n)"
  by (subst subnodes.simps) simp

lemma subnodes_cases:
  "x \<in> set (subnodes n) \<longleftrightarrow>
     x = n \<or> (\<exists>c \<in> set (nchildren n). x \<in> set (subnodes c))
     \<or> (\<exists>d. mainComponent n = Some d \<and> x \<in> set (subnodes d))"
  by (subst subnodes.simps) (auto split: option.splits)

lemma subnodes_child:
  "c \<in> set (nchildren n) \<Longrightarrow> x \<in> set (subnodes c) \<Longrightarrow> x \<in> set (subnodes n)"
  by (subst subnodes_cases) blast

lemma subnodes_main:
  "mainComponent n = Some d \<Longrightarrow> x \<in> set (subnodes d) \<Longrightarrow> x \<in> set (subnodes n)"
  by (subst subnodes_cases) blast

lemma subnodes_trans:
  "x \<in> set (subnodes n) \<Longrightarrow> y \<in> set (subnodes x) \<Longrightarrow> y \<in> set (subnodes n)"
proof (induction n rule: subnodes.induct)
  case (1 n)
  from "1.prems"(1) have "x = n \<or> (\<exists>c \<in> set (nchildren n). x \<in> set (subnodes c))
     \<or> (\<exists>d. mainComponent n = Some d \<and> x \<in> set (subnodes d))"
    by (simp only: subnodes_cases [of x n])
  then consider "x = n"
    | c where "c \<in> set (nchildren n)" "x \<in> set (subnodes c)"
    | d where "mainComponent n = Some d" "x \<in> set (subnodes d)"
    by blast
  then show ?case
  proof cases
    case 1
    then show ?thesis using "1.prems"(2) by simp
  next
    case 2
    then have "y \<in> set (subnodes c)" using "1.IH"(1) "1.prems"(2) by blast
    with 2(1) show ?thesis by (rule subnodes_child)
  next
    case 3
    then have "y \<in> set (subnodes d)" using "1.IH"(2) "1.prems"(2) by blast
    with 3(1) show ?thesis by (rule subnodes_main)
  qed
qed

lemma reachable_closed:
  "closed_under_subnodes (\<lambda>n. n \<in> set (concat (map subnodes selection)))"
  unfolding closed_under_subnodes_def
proof (intro conjI allI impI)
  fix n c
  assume "n \<in> set (concat (map subnodes selection))" and c: "c \<in> set (nchildren n)"
  then obtain s where s: "s \<in> set selection" "n \<in> set (subnodes s)" by auto
  have "c \<in> set (subnodes s)"
    using subnodes_trans [OF s(2) subnodes_child [OF c subnodes_self]] .
  with s(1) show "c \<in> set (concat (map subnodes selection))" by auto
next
  fix n d
  assume "n \<in> set (concat (map subnodes selection))" and d: "mainComponent n = Some d"
  then obtain s where s: "s \<in> set selection" "n \<in> set (subnodes s)" by auto
  have "d \<in> set (subnodes s)"
    using subnodes_trans [OF s(2) subnodes_main [OF d subnodes_self]] .
  with s(1) show "d \<in> set (concat (map subnodes selection))" by auto
qed

lemma traced_invariant:
  assumes uniq: "\<forall>a b. Q a \<longrightarrow> Q b \<longrightarrow> nid a = nid b \<longrightarrow> a = b"
  shows "map_invariant rootId options Q (traced Q)"
  unfolding map_invariant_def
proof (intro conjI allI impI)
  fix m c info
  assume tr: "traced Q m" and Q: "Q c" and new: "\<not> map_has (nid c) m"
    and info: "info = component_info rootId c \<or> info = component_set_info rootId c"
  from info have "cid info = nid c" "cchildren info = []"
    by (auto simp: component_info_def component_set_info_def)
  then show "traced Q (map_set (nid c) info m)"
    using tr Q by (auto simp: map_set_new [OF new] traced_def)
next
  fix m owner d
  assume tr: "traced Q m" and Qo: "Q owner" and Qd: "Q d" and lt: "size d < size owner"
  show "traced Q (push_child (nid owner) (nid d) m)"
    unfolding traced_def
  proof
    fix p assume "p \<in> set (push_child (nid owner) (nid d) m)"
    then have "p \<in> (\<lambda>q. if fst q = nid owner
                   then (fst q, (snd q)\<lparr>cchildren := cchildren (snd q) @ [nid d]\<rparr>) else q)
                ` set m"
      by (simp add: push_child_def)
    then obtain q where p: "p = (if fst q = nid owner
                   then (fst q, (snd q)\<lparr>cchildren := cchildren (snd q) @ [nid d]\<rparr>) else q)"
      and q: "q \<in> set m"
      by (rule imageE)
    from tr q obtain c where c: "cid (snd q) = fst q" "Q c" "nid c = fst q"
      "\<forall>ch \<in> set (cchildren (snd q)). \<exists>d. Q d \<and> nid d = ch \<and> size d < size c"
      unfolding traced_def by blast
    show "cid (snd p) = fst p \<and>
        (\<exists>c. Q c \<and> nid c = fst p \<and>
           (\<forall>ch \<in> set (cchildren (snd p)). \<exists>d. Q d \<and> nid d = ch \<and> size d < size c))"
    proof (cases "fst q = nid owner")
      case True
      then have "c = owner" using uniq c(2,3) Qo by auto
      then have "\<forall>ch \<in> set (cchildren (snd q) @ [nid d]).
          \<exists>d. Q d \<and> nid d = ch \<and> size d < size c"
        using c(4) Qd lt by auto
      then show ?thesis using True p c(1,2,3) by auto
    next
      case False
      then show ?thesis using p c by auto
    qed
  qed
qed

lemma traced_ranked:
  assumes uniq: "\<forall>a b. Q a \<longrightarrow> Q b \<longrightarrow> nid a = nid b \<longrightarrow> a = b"
    and tr: "traced Q m"
  shows "keyed m" and "ranked (\<lambda>k. size (THE c. Q c \<and> nid c = k)) m"
proof -
  show "keyed m" using tr by (simp add: traced_def keyed_def)
  have the: "(THE c. Q c \<and> nid c = nid a) = a" if "Q a" for a
    using that uniq by (intro the_equality) auto
  show "ranked (\<lambda>k. size (THE c. Q c \<and> nid c = k)) m"
    unfolding ranked_def
  proof (intro ballI impI)
    fix p ch
    assume p: "p \<in> set m" and ch: "ch \<in> set (cchildren (snd p))" and has: "map_has ch m"
    from tr p ch obtain c d where c: "Q c" "nid c = fst p"
      and d: "Q d" "nid d = ch" "size d < size c"
      unfolding traced_def by blast
    show "size (THE c. Q c \<and> nid c = ch) < size (THE c. Q c \<and> nid c = fst p)"
      using the [OF c(1)] the [OF d(1)] c(2) d(2,3) by simp
  qed
qed

lemma analyzeSelection_components:
  "selection \<noteq> [] \<Longrightarrow>
   dependencyTree (analyzeSelection rootId selection options)
     = buildDependencyTree (components (analyzeSelection rootId selection options))"
  by (simp add: analyzeSelection_def Let_def)

text \<open>
  C7. When ids are unique among the nodes reachable from the selection, the forest that
  \<open>analyzeSelection\<close> returns has as its roots exactly the entries of the components
  map whose id is in no entry's children, in map order; every entry of the map is at
  exactly one position of the forest (the ids of the forest's nodes are distinct and are
  the keys of the map, and each node carries the entry stored under its id). So no root
  is listed in any entry's children.
\<close>

theorem dependency_forest_complete:
  assumes "unique_ids selection"
  shows "root_ids (dependencyTree (analyzeSelection rootId selection options))
           = filter (\<lambda>k. k \<notin> set (all_child_ids
                 (components (analyzeSelection rootId selection options))))
               (map fst (components (analyzeSelection rootId selection options)))
       \<and> distinct (forest_ids (dependencyTree (analyzeSelection rootId selection options)))
       \<and> set (forest_ids (dependencyTree (analyzeSelection rootId selection options)))
           = set (map fst (components (analyzeSelection rootId selection options)))
       \<and> (\<forall>info \<in> set (forest_infos
               (dependencyTree (analyzeSelection rootId selection options))).
             map_of (components (analyzeSelection rootId selection options)) (cid info)
               = Some info)"
proof (cases "selection = []")
  case True
  then show ?thesis
    by (simp add: analyzeSelection_def createEmptyResult_def root_ids_def)
next
  case False
  let ?Q = "\<lambda>n. n \<in> set (concat (map subnodes selection))"
  let ?m = "components (analyzeSelection rootId selection options)"
  have uniq: "\<forall>a b. ?Q a \<longrightarrow> ?Q b \<longrightarrow> nid a = nid b \<longrightarrow> a = b"
    using assms unfolding unique_ids_def by blast
  have sel: "\<forall>n \<in> set selection. ?Q n"
    using subnodes_self by auto
  have tr: "traced ?Q ?m"
    by (rule analyzeSelection_invariant [OF reachable_closed traced_invariant [OF uniq] _ sel])
      (simp add: traced_def)
  have dist: "distinct (map fst ?m)"
    using analyzeSelection_invariant [OF closed_True distinct_keys_invariant, of selection]
    by simp
  show ?thesis
    unfolding analyzeSelection_components [OF False]
    using forest_complete [OF traced_ranked(1) [OF uniq tr] dist traced_ranked(2) [OF uniq tr]]
    by simp
qed

theorem dependency_forest_complete_witness:
  "root_ids (dependencyTree (analyzeSelection ''doc123'' [card, icon] defaultOptions))
     = [''card'']
   \<and> forest_ids (dependencyTree (analyzeSelection ''doc123'' [card, icon] defaultOptions))
     = [''card'', ''button'', ''icon'']
   \<and> map fst (components (analyzeSelection ''doc123'' [card, icon] defaultOptions))
     = [''card'', ''button'', ''icon'']"
proof -
  have h: "unique_ids [card, icon]" by code_simp
  show ?thesis
    using dependency_forest_complete [OF h, of "''doc123''" defaultOptions] by code_simp
qed

subsection \<open>Deduplication\<close>

text \<open>
  Only \<open>processInstance\<close> adds to the processed instances. Once an instance of an admitted
  definition is among them, the definition is a key of the map, and it stays one.
\<close>

lemma processed_unchanged:
  "processedInstances (processComponent r o' c st) = processedInstances st"
  "processedInstances (processComponentSet r o' c st) = processedInstances st"
  "processedInstances (component_instances r o' c ns st) = processedInstances st"
  "processedInstances (set_variants r o' c ns st) = processedInstances st"
  "processedInstances (set_instances r o' c ns st) = processedInstances st"
proof (induction r o' c st and r o' c st and r o' c ns st and r o' c ns st and r o' c ns st
    rule: processComponent_processComponentSet_component_instances_set_variants_set_instances.induct)
  case (1 r o' component st)
  then show ?case by auto
next
  case (2 r o' componentSet st)
  then show ?case by auto
next
  case (4 r o' component inst rest st)
  then show ?case by (auto simp: Let_def split: option.splits)
next
  case (6 r o' componentSet variant rest st)
  then show ?case by auto
next
  case (8 r o' componentSet inst rest st)
  then show ?case by (auto simp: Let_def split: option.splits)
qed simp_all


lemma key_kept:
  assumes "map_has k (componentMap st)"
  shows "map_has k (componentMap (processComponent rootId options c st))"
    and "map_has k (componentMap (processComponentSet rootId options c st))"
  using analysis_invariant(1,2) [OF closed_True key_present_invariant [of rootId options k], of st c]
    assms by blast+

lemma processInstance_records:
  assumes main: "mainComponent j = Some d"
    and type: "ntype d = COMPONENT \<or> ntype d = COMPONENT_SET"
    and adm: "admitted rootId options d"
    and uniq: "nid x = nid j \<longrightarrow> x = j"
    and K: "nid j \<in> set (processedInstances st) \<longrightarrow> map_has (nid d) (componentMap st)"
  shows "nid j \<in> set (processedInstances (processInstance rootId options x st))
           \<longrightarrow> map_has (nid d) (componentMap (processInstance rootId options x st))"
    and "set (processedInstances st)
           \<subseteq> set (processedInstances (processInstance rootId options x st))"
    and "nid x \<in> set (processedInstances (processInstance rootId options x st))"
proof -
  let ?st1 = "st\<lparr>processedInstances := processedInstances st @ [nid x]\<rparr>"
  let ?res = "processInstance rootId options x st"
  have loc: "isLocalComponent rootId d \<or> includeExternal options"
    and vis: "visible d \<or> includeHidden options"
    using adm by (simp_all add: admitted_def)
  have "(nid j \<in> set (processedInstances ?res) \<longrightarrow> map_has (nid d) (componentMap ?res))
    \<and> set (processedInstances st) \<subseteq> set (processedInstances ?res)
    \<and> nid x \<in> set (processedInstances ?res)"
  proof (cases "nid x \<in> set (processedInstances st)")
    case True
    then show ?thesis using K by (simp add: processInstance_def)
  next
    case False
    show ?thesis
    proof (cases "mainComponent x")
      case None
      then have "x \<noteq> j" using main by auto
      then have "nid x \<noteq> nid j" using uniq by blast
      then show ?thesis
        using False None K by (auto simp: processInstance_def validateMainComponent_def)
    next
      case (Some m)
      have res: "?res = (if ntype m = COMPONENT then processComponent rootId options m ?st1
          else if ntype m = COMPONENT_SET then processComponentSet rootId options m ?st1
          else ?st1)"
        using False Some by (simp add: processInstance_def validateMainComponent_def Let_def)
      have proc: "processedInstances ?res = processedInstances st @ [nid x]"
        unfolding res by (simp add: processed_unchanged)
      have "map_has (nid d) (componentMap ?res)" if "nid j \<in> set (processedInstances ?res)"
      proof (cases "nid x = nid j")
        case True
        then have "m = d" using uniq Some main by auto
        then show ?thesis
          unfolding res
          using type processComponent_adds [OF loc vis, of ?st1]
          by (auto simp del: processComponent.simps processComponentSet.simps)
      next
        case False
        then have "nid j \<in> set (processedInstances st)" using that proc by auto
        then have "map_has (nid d) (componentMap ?st1)" using K by simp
        then show ?thesis
          unfolding res
          using key_kept [of "nid d" ?st1 rootId options m]
          by (auto simp del: processComponent.simps processComponentSet.simps)
      qed
      then show ?thesis using proc by auto
    qed
  qed
  then show "nid j \<in> set (processedInstances ?res) \<longrightarrow> map_has (nid d) (componentMap ?res)"
    and "set (processedInstances st) \<subseteq> set (processedInstances ?res)"
    and "nid x \<in> set (processedInstances ?res)" by blast+
qed

lemma traversal_records:
  assumes main: "mainComponent j = Some d"
    and type: "ntype d = COMPONENT \<or> ntype d = COMPONENT_SET"
    and adm: "admitted rootId options d"
  shows "\<forall>x \<in> set xs. ntype x = INSTANCE \<longrightarrow> nid x = nid j \<longrightarrow> x = j
    \<Longrightarrow> nid j \<in> set (processedInstances st) \<longrightarrow> map_has (nid d) (componentMap st)
    \<Longrightarrow> (nid j \<in> set (processedInstances (fold (\<lambda>child s.
             if ntype child = INSTANCE \<and> nid child \<notin> set (processedInstances s)
             then processInstance rootId options child s else s) xs st))
          \<longrightarrow> map_has (nid d) (componentMap (fold (\<lambda>child s.
             if ntype child = INSTANCE \<and> nid child \<notin> set (processedInstances s)
             then processInstance rootId options child s else s) xs st)))
      \<and> set (processedInstances st) \<subseteq> set (processedInstances (fold (\<lambda>child s.
             if ntype child = INSTANCE \<and> nid child \<notin> set (processedInstances s)
             then processInstance rootId options child s else s) xs st))
      \<and> (\<forall>x \<in> set xs. ntype x = INSTANCE \<longrightarrow>
            nid x \<in> set (processedInstances (fold (\<lambda>child s.
             if ntype child = INSTANCE \<and> nid child \<notin> set (processedInstances s)
             then processInstance rootId options child s else s) xs st)))"
proof (induction xs arbitrary: st)
  case Nil
  then show ?case by simp
next
  case (Cons x xs)
  let ?cb = "\<lambda>child s.
             if ntype child = INSTANCE \<and> nid child \<notin> set (processedInstances s)
             then processInstance rootId options child s else s"
  let ?st = "?cb x st"
  have step: "(nid j \<in> set (processedInstances ?st) \<longrightarrow> map_has (nid d) (componentMap ?st))
    \<and> set (processedInstances st) \<subseteq> set (processedInstances ?st)
    \<and> (ntype x = INSTANCE \<longrightarrow> nid x \<in> set (processedInstances ?st))"
  proof (cases "ntype x = INSTANCE \<and> nid x \<notin> set (processedInstances st)")
    case True
    then have u: "nid x = nid j \<longrightarrow> x = j" using Cons.prems(1) by simp
    show ?thesis
      using True processInstance_records [OF main type adm u Cons.prems(2)] by simp
  next
    case False
    then show ?thesis using Cons.prems(2) by auto
  qed
  have rest: "\<forall>x \<in> set xs. ntype x = INSTANCE \<longrightarrow> nid x = nid j \<longrightarrow> x = j"
    using Cons.prems(1) by simp
  from step have K': "nid j \<in> set (processedInstances ?st) \<longrightarrow> map_has (nid d) (componentMap ?st)"
    by blast
  define mid where "mid = ?st"
  define fin where "fin = fold ?cb xs mid"
  have f: "fold ?cb (x # xs) st = fin" by (simp add: fin_def mid_def)
  have ih: "(nid j \<in> set (processedInstances fin) \<longrightarrow> map_has (nid d) (componentMap fin))
      \<and> set (processedInstances mid) \<subseteq> set (processedInstances fin)
      \<and> (\<forall>x \<in> set xs. ntype x = INSTANCE \<longrightarrow> nid x \<in> set (processedInstances fin))"
    unfolding fin_def mid_def by (rule Cons.IH [OF rest K'])
  have step': "set (processedInstances st) \<subseteq> set (processedInstances mid)
    \<and> (ntype x = INSTANCE \<longrightarrow> nid x \<in> set (processedInstances mid))"
    unfolding mid_def using step by blast
  show ?case
    unfolding f using ih step' by auto
qed


lemma processNode_records:
  assumes main: "mainComponent j = Some d"
    and type: "ntype d = COMPONENT \<or> ntype d = COMPONENT_SET"
    and adm: "admitted rootId options d"
    and uniq: "\<forall>x \<in> set (visited_instances n). nid x = nid j \<longrightarrow> x = j"
    and K: "nid j \<in> set (processedInstances st) \<longrightarrow> map_has (nid d) (componentMap st)"
  shows "(nid j \<in> set (processedInstances (processNode rootId options n st))
           \<longrightarrow> map_has (nid d) (componentMap (processNode rootId options n st)))
       \<and> set (processedInstances st)
           \<subseteq> set (processedInstances (processNode rootId options n st))
       \<and> (\<forall>x \<in> set (visited_instances n).
             nid x \<in> set (processedInstances (processNode rootId options n st)))"
proof -
  consider "ntype n = COMPONENT" | "ntype n = COMPONENT_SET" | "ntype n = INSTANCE"
    | "ntype n \<noteq> COMPONENT" "ntype n \<noteq> COMPONENT_SET" "ntype n \<noteq> INSTANCE"
    by blast
  then show ?thesis
  proof cases
    case 1
    then show ?thesis
      using K key_kept(1) [of "nid d" st rootId options n]
      by (simp add: processNode_def visited_instances_def processed_unchanged
          del: processComponent.simps)
  next
    case 2
    then show ?thesis
      using K key_kept(2) [of "nid d" st rootId options n]
      by (simp add: processNode_def visited_instances_def processed_unchanged
          del: processComponentSet.simps)
  next
    case 3
    then have u: "nid n = nid j \<longrightarrow> n = j" using uniq by (simp add: visited_instances_def)
    show ?thesis
      using 3 processInstance_records [OF main type adm u K]
      by (simp add: processNode_def visited_instances_def)
  next
    case 4
    have u: "\<forall>x \<in> set (preorder n). ntype x = INSTANCE \<longrightarrow> nid x = nid j \<longrightarrow> x = j"
      using uniq 4 by (simp add: visited_instances_def)
    show ?thesis
      using 4 traversal_records [OF main type adm u K]
      by (simp add: processNode_def visited_instances_def traverseNode_preorder)
  qed
qed

lemma selection_records:
  assumes main: "mainComponent j = Some d"
    and type: "ntype d = COMPONENT \<or> ntype d = COMPONENT_SET"
    and adm: "admitted rootId options d"
  shows "\<forall>x \<in> set (selected_instances ns). nid x = nid j \<longrightarrow> x = j
    \<Longrightarrow> nid j \<in> set (processedInstances st) \<longrightarrow> map_has (nid d) (componentMap st)
    \<Longrightarrow> (nid j \<in> set (processedInstances (fold (processNode rootId options) ns st))
           \<longrightarrow> map_has (nid d) (componentMap (fold (processNode rootId options) ns st)))
       \<and> set (processedInstances st)
           \<subseteq> set (processedInstances (fold (processNode rootId options) ns st))
       \<and> (\<forall>x \<in> set (selected_instances ns).
             nid x \<in> set (processedInstances (fold (processNode rootId options) ns st)))"
proof (induction ns arbitrary: st)
  case Nil
  then show ?case by (simp add: selected_instances_def)
next
  case (Cons n ns)
  define mid where "mid = processNode rootId options n st"
  define fin where "fin = fold (processNode rootId options) ns mid"
  have f: "fold (processNode rootId options) (n # ns) st = fin"
    by (simp add: fin_def mid_def)
  have sel: "set (selected_instances (n # ns))
      = set (visited_instances n) \<union> set (selected_instances ns)"
    by (simp add: selected_instances_def)
  have u1: "\<forall>x \<in> set (visited_instances n). nid x = nid j \<longrightarrow> x = j"
    and u2: "\<forall>x \<in> set (selected_instances ns). nid x = nid j \<longrightarrow> x = j"
    using Cons.prems(1) unfolding sel by blast+
  have step: "(nid j \<in> set (processedInstances mid) \<longrightarrow> map_has (nid d) (componentMap mid))
       \<and> set (processedInstances st) \<subseteq> set (processedInstances mid)
       \<and> (\<forall>x \<in> set (visited_instances n). nid x \<in> set (processedInstances mid))"
    unfolding mid_def by (rule processNode_records [OF main type adm u1 Cons.prems(2)])
  then have K': "nid j \<in> set (processedInstances mid) \<longrightarrow> map_has (nid d) (componentMap mid)"
    by blast
  have ih: "(nid j \<in> set (processedInstances fin) \<longrightarrow> map_has (nid d) (componentMap fin))
       \<and> set (processedInstances mid) \<subseteq> set (processedInstances fin)
       \<and> (\<forall>x \<in> set (selected_instances ns). nid x \<in> set (processedInstances fin))"
    unfolding fin_def by (rule Cons.IH [OF u2 K'])
  have step': "set (processedInstances st) \<subseteq> set (processedInstances mid)
       \<and> (\<forall>x \<in> set (visited_instances n). nid x \<in> set (processedInstances mid))"
    using step by blast
  show ?case
    unfolding f sel using ih step' by auto
qed

lemma selected_instances_reachable:
  assumes "x \<in> set (selected_instances selection)"
  shows "x \<in> set (concat (map subnodes selection))"
proof -
  from assms obtain n where n: "n \<in> set selection" "x \<in> set (visited_instances n)"
    by (auto simp: selected_instances_def)
  have Qn: "n \<in> set (concat (map subnodes selection))"
    using n(1) subnodes_self by auto
  have "n \<in> set (preorder n)" by (subst preorder.simps) simp
  with n(2) have "x \<in> set (preorder n)"
    by (auto simp: visited_instances_def split: if_splits)
  then show ?thesis
    using preorder_closed [OF reachable_closed Qn] by blast
qed

lemma admitted_invariant:
  "map_invariant rootId options Q
     (\<lambda>m. \<forall>k \<in> set (map fst m). \<exists>c. Q c \<and> nid c = k \<and> admitted rootId options c)"
  unfolding map_invariant_def
  by (auto simp: map_set_new map_fst_push_child admitted_def)

lemma definition_entries:
  assumes uniq: "unique_ids selection"
    and j: "j \<in> set (selected_instances selection)"
    and main: "mainComponent j = Some d"
    and type: "ntype d = COMPONENT \<or> ntype d = COMPONENT_SET"
  shows "length (filter (\<lambda>p. fst p = nid d)
           (components (analyzeSelection rootId selection options)))
         = (if admitted rootId options d then 1 else 0)"
proof -
  let ?Q = "\<lambda>n. n \<in> set (concat (map subnodes selection))"
  let ?m = "components (analyzeSelection rootId selection options)"
  have u: "\<forall>a b. ?Q a \<longrightarrow> ?Q b \<longrightarrow> nid a = nid b \<longrightarrow> a = b"
    using uniq unfolding unique_ids_def by blast
  have ne: "selection \<noteq> []" using j by (auto simp: selected_instances_def)
  have Qj: "?Q j" by (rule selected_instances_reachable [OF j])
  have Qd: "?Q d" by (rule closed_main [OF reachable_closed Qj main])
  show ?thesis
  proof (cases "admitted rootId options d")
    case True
    let ?st0 = "\<lparr>componentMap = [], processedInstances = [],
        warnings = validateSelection selection\<rparr>"
    let ?fin = "fold (processNode rootId options) selection ?st0"
    have uj: "\<forall>x \<in> set (selected_instances selection). nid x = nid j \<longrightarrow> x = j"
      using u Qj selected_instances_reachable by blast
    have K0: "nid j \<in> set (processedInstances ?st0) \<longrightarrow> map_has (nid d) (componentMap ?st0)"
      by simp
    have "(nid j \<in> set (processedInstances ?fin) \<longrightarrow> map_has (nid d) (componentMap ?fin))
       \<and> set (processedInstances ?st0) \<subseteq> set (processedInstances ?fin)
       \<and> (\<forall>x \<in> set (selected_instances selection). nid x \<in> set (processedInstances ?fin))"
      by (rule selection_records [OF main type True uj K0])
    then have "map_has (nid d) (componentMap ?fin)" using j by blast
    then have has: "map_has (nid d) ?m"
      using ne by (simp add: analyzeSelection_def Let_def)
    have "distinct (map fst ?m)"
      using analyzeSelection_invariant [OF closed_True distinct_keys_invariant, of selection]
      by simp
    then have "length (filter (\<lambda>p. fst p = nid d) ?m) = 1"
      using has by (rule distinct_filter_one)
    then show ?thesis using True by simp
  next
    case False
    have sel: "\<forall>n \<in> set selection. ?Q n" using subnodes_self by auto
    have inv: "\<forall>k \<in> set (map fst ?m). \<exists>c. ?Q c \<and> nid c = k \<and> admitted rootId options c"
      by (rule analyzeSelection_invariant [OF reachable_closed admitted_invariant _ sel]) simp
    have "filter (\<lambda>p. fst p = nid d) ?m = []"
    proof (rule ccontr)
      assume "filter (\<lambda>p. fst p = nid d) ?m \<noteq> []"
      then obtain p where p: "p \<in> set ?m" "fst p = nid d"
        by (auto simp: filter_empty_conv)
      then have "nid d \<in> set (map fst ?m)" by force
      then obtain c where c: "?Q c" "nid c = nid d" "admitted rootId options c"
        using inv by blast
      then have "c = d" using u Qd by blast
      then show False using c(3) False by simp
    qed
    then show ?thesis using False by simp
  qed
qed

text \<open>
  C6 (as amended). The components map that \<open>analyzeSelection\<close> returns has no two entries
  with the same id. Processing a component or a component set whose id is already in the
  map, or an instance that has already been processed, leaves the state as it is. When the
  ids of the nodes are unique, the instances that a selection contains, however many, give
  exactly one entry for their definition if the definition is admitted (local, or external
  ones are included; visible, or hidden ones are included), and no entry if it is not.
\<close>

theorem analysis_deduplicates:
  "distinct (map fst (components (analyzeSelection rootId selection options)))
   \<and> (map_has (nid c) (componentMap st) \<longrightarrow>
        processComponent rootId options c st = st
        \<and> processComponentSet rootId options c st = st)
   \<and> (nid i \<in> set (processedInstances st) \<longrightarrow> processInstance rootId options i st = st)
   \<and> (unique_ids selection \<longrightarrow>
        (\<forall>j \<in> set (selected_instances selection). \<forall>d.
            mainComponent j = Some d \<and> (ntype d = COMPONENT \<or> ntype d = COMPONENT_SET) \<longrightarrow>
            length (filter (\<lambda>p. fst p = nid d)
                (components (analyzeSelection rootId selection options)))
              = (if admitted rootId options d then 1 else 0)))"
proof (intro conjI impI ballI allI)
  show "distinct (map fst (components (analyzeSelection rootId selection options)))"
    using analyzeSelection_invariant [OF closed_True distinct_keys_invariant, of selection]
    by simp
  show "processComponent rootId options c st = st" if "map_has (nid c) (componentMap st)"
    using that by simp
  show "processComponentSet rootId options c st = st" if "map_has (nid c) (componentMap st)"
    using that by simp
  show "processInstance rootId options i st = st" if "nid i \<in> set (processedInstances st)"
    using that by (simp add: processInstance_def)
  show "length (filter (\<lambda>p. fst p = nid d)
          (components (analyzeSelection rootId selection options)))
        = (if admitted rootId options d then 1 else 0)"
    if "unique_ids selection" "j \<in> set (selected_instances selection)"
      "mainComponent j = Some d \<and> (ntype d = COMPONENT \<or> ntype d = COMPONENT_SET)" for j d
    using definition_entries [OF that(1,2)] that(3) by blast
qed

theorem analysis_deduplicates_witness:
  "map fst (components (analyzeSelection ''doc123'' mixed_selection defaultOptions)) = [''icon'']
   \<and> processComponent ''doc123'' defaultOptions icon icon_analysed = icon_analysed
   \<and> processInstance ''doc123'' defaultOptions (mk_instance ''inst1'' ''Icon 1'' icon)
        icon_analysed = icon_analysed
   \<and> length (filter (\<lambda>p. fst p = ''icon'')
        (components (analyzeSelection ''doc123'' mixed_selection defaultOptions))) = 1
   \<and> length (filter (\<lambda>p. fst p = ''comp1'')
        (components (analyzeSelection ''doc123'' mixed_selection defaultOptions))) = 0"
proof -
  let ?m = "components (analyzeSelection ''doc123'' mixed_selection defaultOptions)"
  have u: "unique_ids mixed_selection" by code_simp
  have has: "map_has (nid icon) (componentMap icon_analysed)" by code_simp
  have seen: "nid (mk_instance ''inst1'' ''Icon 1'' icon) \<in> set (processedInstances icon_analysed)"
    by code_simp
  have j2: "mk_instance ''inst2'' ''Icon 2'' icon \<in> set (selected_instances mixed_selection)"
    and j5: "mk_instance ''inst5'' ''Widget 1'' externalWidget
        \<in> set (selected_instances mixed_selection)"
    by code_simp+
  note all = analysis_deduplicates [of "''doc123''" mixed_selection defaultOptions icon
      icon_analysed "mk_instance ''inst1'' ''Icon 1'' icon"]
  have d2: "mainComponent (mk_instance ''inst2'' ''Icon 2'' icon) = Some icon
      \<and> (ntype icon = COMPONENT \<or> ntype icon = COMPONENT_SET)"
    and d5: "mainComponent (mk_instance ''inst5'' ''Widget 1'' externalWidget) = Some externalWidget
      \<and> (ntype externalWidget = COMPONENT \<or> ntype externalWidget = COMPONENT_SET)"
    by (simp_all add: mk_instance_def icon_def externalWidget_def mk_component_def)
  have "length (filter (\<lambda>p. fst p = nid icon) ?m)
      = (if admitted ''doc123'' defaultOptions icon then 1 else 0)"
    using all u j2 d2 by blast
  moreover have "length (filter (\<lambda>p. fst p = nid externalWidget) ?m)
      = (if admitted ''doc123'' defaultOptions externalWidget then 1 else 0)"
    using all u j5 d5 by blast
  moreover have "nid icon = ''icon''" "nid externalWidget = ''comp1''"
    "admitted ''doc123'' defaultOptions icon" "\<not> admitted ''doc123'' defaultOptions externalWidget"
    by code_simp+
  moreover have "map fst ?m = [''icon'']" by code_simp
  moreover have "processComponent ''doc123'' defaultOptions icon icon_analysed = icon_analysed"
    "processInstance ''doc123'' defaultOptions (mk_instance ''inst1'' ''Icon 1'' icon)
        icon_analysed = icon_analysed"
    using all has seen by blast+
  ultimately show ?thesis by simp
qed

text \<open>
  C6 as stated expects exactly one entry for the definition of any two selected instances.
  Two selected instances of the external widget, analysed with the default options, give
  no entry.
\<close>

theorem two_instances_of_external_definition_give_no_entry:
  "components (analyzeSelection ''doc123'' two_external_instances defaultOptions) = []"
  by code_simp

subsection \<open>Rounding to the nearest double\<close>

text \<open>The equations that evaluate the operations on given numbers.\<close>

lemmas number_eval =
  js_div_def js_mul_def js_add_def js_sub_def js_lt_def js_gt_def js_le_def js_strict_eq_def
  round_to_def nearest_def ulp_def exponent_def binade_up.simps binade_down.simps
  round_half_even_def overflow_threshold_def signed_zero_def signed_infinity_def Let_def

lemma binade_up_ge: "e \<le> binade_up x e"
proof (induction x e rule: binade_up.induct)
  case (1 x e)
  show ?case
  proof (cases "2 \<le> x")
    case True
    then show ?thesis using 1 by (subst binade_up.simps) simp
  next
    case False
    then show ?thesis by (subst binade_up.simps) simp
  qed
qed

lemma two_powi_Suc: "(2::real) powi (k + 1) = 2 * 2 powi k"
  by (rule power_int_add_1') simp

lemma binade_up_bounds:
  "1 \<le> x \<Longrightarrow> 2 powi (binade_up x e - e) \<le> x \<and> x < 2 powi (binade_up x e - e + 1)"
proof (induction x e rule: binade_up.induct)
  case (1 x e)
  show ?case
  proof (cases "2 \<le> x")
    case True
    let ?r = "binade_up (x / 2) (e + 1)"
    have r: "binade_up x e = ?r" using True by (subst binade_up.simps) simp
    have ih: "2 powi (?r - (e + 1)) \<le> x / 2 \<and> x / 2 < 2 powi (?r - (e + 1) + 1)"
      using "1.IH" [OF True] True by simp
    have "(2::real) powi (?r - e) = 2 * 2 powi (?r - (e + 1))"
      using two_powi_Suc [of "?r - (e + 1)"] by (simp add: algebra_simps)
    moreover have "(2::real) powi (?r - e + 1) = 2 * 2 powi (?r - (e + 1) + 1)"
      using two_powi_Suc [of "?r - (e + 1) + 1"] by (simp add: algebra_simps)
    ultimately show ?thesis using ih r by simp
  next
    case False
    then have "binade_up x e = e" by (subst binade_up.simps) simp
    then show ?thesis using False "1.prems" by simp
  qed
qed

lemma binade_down_bounds:
  "0 \<le> x \<Longrightarrow> x < 2 \<Longrightarrow> - 1022 \<le> e \<Longrightarrow>
     - 1022 \<le> binade_down x e \<and> x < 2 powi (binade_down x e - e + 1)
     \<and> (- 1022 < binade_down x e \<longrightarrow> 2 powi (binade_down x e - e) \<le> x)"
proof (induction x e rule: binade_down.induct)
  case (1 x e)
  show ?case
  proof (cases "x < 1 \<and> - 1022 < e")
    case True
    let ?r = "binade_down (2 * x) (e - 1)"
    have r: "binade_down x e = ?r" using True by (subst binade_down.simps) simp
    have ih: "- 1022 \<le> ?r \<and> 2 * x < 2 powi (?r - (e - 1) + 1)
     \<and> (- 1022 < ?r \<longrightarrow> 2 powi (?r - (e - 1)) \<le> 2 * x)"
      using "1.IH" [OF True] True "1.prems" by simp
    have a: "(2::real) powi (?r - (e - 1) + 1) = 2 * 2 powi (?r - e + 1)"
      using two_powi_Suc [of "?r - e + 1"] by (simp add: algebra_simps)
    have b: "(2::real) powi (?r - (e - 1)) = 2 * 2 powi (?r - e)"
      using two_powi_Suc [of "?r - e"] by (simp add: algebra_simps)
    show ?thesis using ih unfolding r a b by simp
  next
    case False
    then have r: "binade_down x e = e" by (subst binade_down.simps) auto
    from False consider "1 \<le> x" | "e = - 1022" using "1.prems" by linarith
    then show ?thesis
    proof cases
      case 1
      then show ?thesis using r "1.prems" by simp
    next
      case 2
      then show ?thesis using r "1.prems" by simp
    qed
  qed
qed

lemma exponent_bounds:
  assumes "0 \<le> x"
  shows "- 1022 \<le> exponent x" and "x < 2 powi (exponent x + 1)"
    and "- 1022 < exponent x \<Longrightarrow> 2 powi (exponent x) \<le> x"
proof -
  have "- 1022 \<le> exponent x \<and> x < 2 powi (exponent x + 1)
    \<and> (- 1022 < exponent x \<longrightarrow> 2 powi (exponent x) \<le> x)"
  proof (cases "1 \<le> x")
    case True
    then show ?thesis
      using binade_up_bounds [OF True, of 0] binade_up_ge [of 0 x]
      by (simp add: exponent_def)
  next
    case False
    then show ?thesis
      using binade_down_bounds [of x 0] assms by (simp add: exponent_def)
  qed
  then show "- 1022 \<le> exponent x" and "x < 2 powi (exponent x + 1)"
    and "- 1022 < exponent x \<Longrightarrow> 2 powi (exponent x) \<le> x" by blast+
qed

lemma round_half_even_floor: "\<lfloor>q\<rfloor> \<le> round_half_even q"
  by (simp add: round_half_even_def Let_def)

lemma round_half_even_ceiling: "round_half_even q \<le> \<lceil>q\<rceil>"
  unfolding round_half_even_def Let_def by (auto; linarith)

lemma round_half_even_ge: "of_int n \<le> q \<Longrightarrow> n \<le> round_half_even q"
proof -
  assume "of_int n \<le> q"
  then have "n \<le> \<lfloor>q\<rfloor>" by (simp add: le_floor_iff)
  then show ?thesis using round_half_even_floor [of q] by linarith
qed

lemma round_half_even_le: "q \<le> of_int n \<Longrightarrow> round_half_even q \<le> n"
proof -
  assume "q \<le> of_int n"
  then have "\<lceil>q\<rceil> \<le> n" by (simp add: ceiling_le_iff)
  then show ?thesis using round_half_even_ceiling [of q] by linarith
qed

lemma round_half_even_mono:
  assumes "q \<le> q'"
  shows "round_half_even q \<le> round_half_even q'"
proof (cases "\<lfloor>q\<rfloor> = \<lfloor>q'\<rfloor>")
  case True
  then show ?thesis using assms unfolding round_half_even_def Let_def by auto
next
  case False
  then have lt: "\<lfloor>q\<rfloor> < \<lfloor>q'\<rfloor>" using assms floor_mono [OF assms] by linarith
  have "round_half_even q \<le> \<lfloor>q\<rfloor> + 1"
    unfolding round_half_even_def Let_def by auto
  also have "\<dots> \<le> \<lfloor>q'\<rfloor>" using lt by simp
  also have "\<dots> \<le> round_half_even q'" by (rule round_half_even_floor)
  finally show ?thesis .
qed

lemma ulp_pos: "0 < ulp x"
  by (simp add: ulp_def)

lemma ulp_times: "2 ^ 52 * ulp x = 2 powi (exponent x)"
proof -
  have "(2::real) powi (52 + (exponent x - 52)) = 2 powi 52 * 2 powi (exponent x - 52)"
    by (rule power_int_add) simp
  then show ?thesis by (simp add: ulp_def)
qed

lemma nearest_nonneg: "0 \<le> x \<Longrightarrow> 0 \<le> nearest x"
proof -
  assume "0 \<le> x"
  then have "of_int 0 \<le> x / ulp x" using ulp_pos [of x] by simp
  then have "0 \<le> round_half_even (x / ulp x)" by (rule round_half_even_ge)
  then show ?thesis using ulp_pos [of x] by (simp add: nearest_def)
qed

lemma nearest_le_top:
  assumes "0 \<le> x"
  shows "nearest x \<le> 2 powi (exponent x + 1)"
proof -
  have top: "(2::real) powi (exponent x + 1) = 2 ^ 53 * ulp x"
    using two_powi_Suc [of "exponent x"] ulp_times [of x] by simp
  have "x / ulp x \<le> 2 ^ 53"
    using exponent_bounds(2) [OF assms] ulp_pos [of x] unfolding top
    by (simp add: pos_divide_le_eq)
  then have "x / ulp x \<le> of_int (2 ^ 53)" by simp
  then have "round_half_even (x / ulp x) \<le> 2 ^ 53" by (rule round_half_even_le)
  then have "(of_int (round_half_even (x / ulp x)) :: real) \<le> 2 ^ 53"
    by (metis of_int_le_iff of_int_numeral of_int_power)
  then show ?thesis unfolding top nearest_def
    using ulp_pos [of x] by (simp add: mult_right_mono)
qed

lemma nearest_ge_bot:
  assumes "0 \<le> x" "- 1022 < exponent x"
  shows "2 powi (exponent x) \<le> nearest x"
proof -
  have "2 ^ 52 * ulp x \<le> x"
    using exponent_bounds(3) [OF assms] unfolding ulp_times .
  then have "2 ^ 52 \<le> x / ulp x"
    using ulp_pos [of x] by (simp add: pos_le_divide_eq)
  then have "of_int (2 ^ 52) \<le> x / ulp x" by simp
  then have "2 ^ 52 \<le> round_half_even (x / ulp x)" by (rule round_half_even_ge)
  then have "(2 ^ 52 :: real) \<le> of_int (round_half_even (x / ulp x))"
    by (metis of_int_le_iff of_int_numeral of_int_power)
  then have "2 ^ 52 * ulp x \<le> nearest x"
    unfolding nearest_def using ulp_pos [of x] by (simp add: mult_right_mono)
  then show ?thesis unfolding ulp_times .
qed

lemma nearest_mono:
  assumes "0 \<le> x" "x \<le> y"
  shows "nearest x \<le> nearest y"
proof -
  have y0: "0 \<le> y" using assms by simp
  consider "exponent x = exponent y" | "exponent x < exponent y" | "exponent y < exponent x"
    by linarith
  then show ?thesis
  proof cases
    case 1
    then have u: "ulp x = ulp y" by (simp add: ulp_def)
    have "x / ulp y \<le> y / ulp y"
      using assms(2) ulp_pos [of y] by (simp add: divide_right_mono)
    then have "round_half_even (x / ulp y) \<le> round_half_even (y / ulp y)"
      by (rule round_half_even_mono)
    then show ?thesis
      unfolding nearest_def u using ulp_pos [of y] by (simp add: mult_right_mono)
  next
    case 2
    have "nearest x \<le> 2 powi (exponent x + 1)" by (rule nearest_le_top [OF assms(1)])
    also have "\<dots> \<le> 2 powi (exponent y)"
      using 2 by (intro power_int_increasing) simp_all
    also have "\<dots> \<le> nearest y"
      using nearest_ge_bot [OF y0] 2 exponent_bounds(1) [OF assms(1)] by simp
    finally show ?thesis .
  next
    case 3
    have "y < 2 powi (exponent y + 1)" by (rule exponent_bounds(2) [OF y0])
    also have "\<dots> \<le> 2 powi (exponent x)"
      using 3 by (intro power_int_increasing) simp_all
    also have "\<dots> \<le> x"
      using exponent_bounds(3) [OF assms(1)] 3 exponent_bounds(1) [OF y0] by simp
    finally show ?thesis using assms(2) by simp
  qed
qed

lemma nearest_1: "nearest 1 = 1"
  by code_simp

lemma nearest_100: "nearest 100 = 100"
  by code_simp


lemma nearest_0: "nearest 0 = 0"
  by (simp add: nearest_def round_half_even_def)

subsection \<open>Order and arithmetic of numbers\<close>

lemma js_le_zero_iff: "js_le (Fin 0) p \<longleftrightarrow> p = PosInf \<or> (is_finite p \<and> 0 \<le> real_of p)"
  by (cases p) (auto simp: js_le_def)

lemma js_le_refl: "x \<noteq> NaN \<Longrightarrow> js_le x x"
  by (cases x) (auto simp: js_le_def)

lemma round_to_cases:
  assumes "0 \<le> x"
  shows "(round_to b x = PosInf \<and> overflow_threshold \<le> nearest x)
       \<or> (is_finite (round_to b x) \<and> real_of (round_to b x) = nearest x
            \<and> nearest x < overflow_threshold)"
proof -
  have abs: "\<bar>x\<bar> = x" and neg: "(x < 0) = False" using assms by simp_all
  show ?thesis
    unfolding round_to_def Let_def abs neg signed_zero_def signed_infinity_def
    by (cases "overflow_threshold \<le> nearest x"; cases "nearest x = 0") simp_all
qed

lemma round_to_mono:
  assumes "0 \<le> x" "x \<le> y"
  shows "js_le (round_to a x) (round_to b y)"
proof -
  have y0: "0 \<le> y" using assms by simp
  from round_to_cases [OF y0, of b] show ?thesis
  proof
    assume "round_to b y = PosInf \<and> overflow_threshold \<le> nearest y"
    then show ?thesis
      using round_to_cases [OF assms(1), of a] by (auto simp: js_le_def)
  next
    assume y: "is_finite (round_to b y) \<and> real_of (round_to b y) = nearest y
            \<and> nearest y < overflow_threshold"
    then have "nearest x < overflow_threshold"
      using nearest_mono [OF assms] by linarith
    then have "is_finite (round_to a x) \<and> real_of (round_to a x) = nearest x"
      using round_to_cases [OF assms(1), of a] by auto
    then show ?thesis
      using y nearest_mono [OF assms] by (auto simp: js_le_def)
  qed
qed

lemma round_to_nonneg: "0 \<le> x \<Longrightarrow> js_le (Fin 0) (round_to b x)"
  using round_to_cases [of x b] nearest_nonneg [of x] by (auto simp: js_le_zero_iff)

lemma round_to_upper:
  assumes "0 \<le> x" "x \<le> c" "nearest c = c" "c < overflow_threshold"
  shows "js_le (round_to b x) (Fin c)"
proof -
  have "nearest x \<le> c" using nearest_mono [OF assms(1,2)] assms(3) by simp
  then show ?thesis
    using round_to_cases [OF assms(1), of b] assms(4) by (auto simp: js_le_def)
qed

lemma js_div_positive:
  "is_finite p \<Longrightarrow> 0 < t \<Longrightarrow>
     js_div p (Fin t) = round_to (negative p) (real_of p / t)"
  by (cases p) (auto simp: js_div_def)

lemma js_div_PosInf: "0 < t \<Longrightarrow> js_div PosInf (Fin t) = PosInf"
  by (simp add: js_div_def signed_infinity_def)

lemma js_div_mono:
  assumes "js_le (Fin 0) p" "js_le p p'" "0 < t"
  shows "js_le (js_div p (Fin t)) (js_div p' (Fin t))"
proof (cases "p' = PosInf")
  case True
  have "js_div p (Fin t) \<noteq> NaN"
    using assms(1,3) round_to_nonneg [of "real_of p / t" "negative p"]
    by (auto simp: js_le_zero_iff js_div_PosInf js_div_positive js_le_def)
  then show ?thesis using True assms(3) by (simp add: js_div_PosInf js_le_def)
next
  case False
  then have fin: "is_finite p" "is_finite p'" "0 \<le> real_of p" "real_of p \<le> real_of p'"
    using assms(1,2) by (auto simp: js_le_zero_iff js_le_def)
  have "js_le (round_to (negative p) (real_of p / t)) (round_to (negative p') (real_of p' / t))"
    using fin assms(3) by (intro round_to_mono) (simp_all add: divide_right_mono)
  then show ?thesis using fin assms(3) by (simp add: js_div_positive)
qed

lemma js_div_nonneg:
  assumes "js_le (Fin 0) p" "0 < t"
  shows "js_le (Fin 0) (js_div p (Fin t))"
  using assms round_to_nonneg [of "real_of p / t" "negative p"]
  by (auto simp: js_le_zero_iff js_div_PosInf js_div_positive)

lemma js_div_upper:
  assumes "js_le (Fin 0) p" "js_le p (Fin t)" "0 < t"
  shows "js_le (js_div p (Fin t)) (Fin 1)"
proof -
  have fin: "is_finite p" "0 \<le> real_of p" "real_of p \<le> t"
    using assms(1,2) by (auto simp: js_le_zero_iff js_le_def)
  have "js_le (round_to (negative p) (real_of p / t)) (Fin 1)"
    using fin assms(3) by (intro round_to_upper) (simp_all add: nearest_1 overflow_threshold_def)
  then show ?thesis using fin assms(3) by (simp add: js_div_positive)
qed

lemma js_mul_100:
  "is_finite q \<Longrightarrow> js_mul q (Fin 100) = round_to (negative q) (real_of q * 100)"
  by (cases q) (auto simp: js_mul_def)

lemma js_mul_100_PosInf: "js_mul PosInf (Fin 100) = PosInf"
  by (simp add: js_mul_def signed_infinity_def)

lemma js_mul_100_mono:
  assumes "js_le (Fin 0) q" "js_le q q'"
  shows "js_le (js_mul q (Fin 100)) (js_mul q' (Fin 100))"
proof (cases "q' = PosInf")
  case True
  have "js_mul q (Fin 100) \<noteq> NaN"
    using assms(1) round_to_nonneg [of "real_of q * 100" "negative q"]
    by (auto simp: js_le_zero_iff js_mul_100_PosInf js_mul_100 js_le_def)
  then show ?thesis using True by (simp add: js_mul_100_PosInf js_le_def)
next
  case False
  then have fin: "is_finite q" "is_finite q'" "0 \<le> real_of q" "real_of q \<le> real_of q'"
    using assms(1,2) by (auto simp: js_le_zero_iff js_le_def)
  have "js_le (round_to (negative q) (real_of q * 100))
      (round_to (negative q') (real_of q' * 100))"
    using fin by (intro round_to_mono) simp_all
  then show ?thesis using fin by (simp add: js_mul_100)
qed

lemma js_mul_100_nonneg:
  assumes "js_le (Fin 0) q"
  shows "js_le (Fin 0) (js_mul q (Fin 100))"
  using assms round_to_nonneg [of "real_of q * 100" "negative q"]
  by (auto simp: js_le_zero_iff js_mul_100_PosInf js_mul_100)

lemma js_mul_100_upper:
  assumes "js_le (Fin 0) q" "js_le q (Fin 1)"
  shows "js_le (js_mul q (Fin 100)) (Fin 100)"
proof -
  have fin: "is_finite q" "0 \<le> real_of q" "real_of q \<le> 1"
    using assms(1,2) by (auto simp: js_le_zero_iff js_le_def)
  have "js_le (round_to (negative q) (real_of q * 100)) (Fin 100)"
    using fin by (intro round_to_upper) (simp_all add: nearest_100 overflow_threshold_def)
  then show ?thesis using fin by (simp add: js_mul_100)
qed

lemma Math_round_Fin:
  "is_finite (Math_round (Fin r))" "real_of (Math_round (Fin r)) = of_int \<lfloor>r + 1 / 2\<rfloor>"
  by (simp_all add: Let_def)

lemma Math_round_NegZero: "Math_round NegZero = NegZero"
  by simp

lemma Math_round_mono:
  assumes "js_le a b"
  shows "js_le (Math_round a) (Math_round b)"
proof -
  have fin: "js_le (Math_round (Fin r)) (Math_round (Fin r'))" if "r \<le> r'" for r r'
  proof -
    have "\<lfloor>r + 1 / 2\<rfloor> \<le> \<lfloor>r' + 1 / 2\<rfloor>" using that by (intro floor_mono) simp
    then show ?thesis
      using Math_round_Fin [of r] Math_round_Fin [of r']
      unfolding js_le_def by (metis is_finite.simps(3) of_int_le_iff)
  qed
  have zero: "Fin 0 = Math_round (Fin 0)" by simp
  show ?thesis
  proof (cases a)
    case (Fin r)
    then show ?thesis
    proof (cases b)
      case (Fin r')
      then show ?thesis using assms \<open>a = Fin r\<close> fin [of r r'] by (simp add: js_le_def)
    next
      case NegZero
      have "js_le (Math_round (Fin r)) (Math_round (Fin 0))"
        using assms \<open>a = Fin r\<close> NegZero by (intro fin) (simp add: js_le_def)
      then show ?thesis using \<open>a = Fin r\<close> NegZero
        unfolding js_le_def Math_round_NegZero by (simp add: Let_def)
    qed (use assms \<open>a = Fin r\<close> Math_round_Fin [of r] in \<open>auto simp: js_le_def simp del: Math_round.simps(1)\<close>)
  next
    case NegZero
    then show ?thesis
    proof (cases b)
      case (Fin r')
      have "js_le (Math_round (Fin 0)) (Math_round (Fin r'))"
        using assms \<open>a = NegZero\<close> Fin by (intro fin) (simp add: js_le_def)
      then show ?thesis using \<open>a = NegZero\<close> Fin
        unfolding js_le_def Math_round_NegZero by (simp add: Let_def)
    qed (use assms \<open>a = NegZero\<close> in \<open>auto simp: js_le_def\<close>)
  qed (use assms in \<open>cases b; auto simp: js_le_def Let_def\<close>)+
qed

lemma Math_round_nonneg: "js_le (Fin 0) a \<Longrightarrow> js_le (Fin 0) (Math_round a)"
  using Math_round_mono [of "Fin 0" a] by simp

lemma Math_round_upper: "js_le a (Fin 100) \<Longrightarrow> js_le (Math_round a) (Fin 100)"
  using Math_round_mono [of a "Fin 100"] by simp

subsection \<open>Progress tracker\<close>

lemma positive_finite: "js_gt tot (Fin 0) \<Longrightarrow> tot \<noteq> PosInf \<Longrightarrow> \<exists>t > 0. tot = Fin t"
  by (cases tot) (auto simp: js_gt_def js_lt_def)

lemma apply_call_total: "total (apply_call c t) = total t"
  by (cases c)
    (simp_all add: setPhase_def updateProgress_def increment_def complete_def update_def)

lemma run_calls_total: "s \<in> set (run_calls t cs) \<Longrightarrow> total s = total t"
  by (induction cs arbitrary: t) (auto simp: apply_call_total)

lemma start_fields:
  "total (start now tot ph t) = tot" "processed (start now tot ph t) = Fin 0"
  by (simp_all add: start_def update_def)

lemma percentage_at_eq:
  "percentage_at now t =
     (if js_gt (total t) (Fin 0)
      then Math_round (js_mul (js_div (processed t) (total t)) (Fin 100))
      else Fin 0)"
  by (simp add: percentage_at_def getProgress_def)

text \<open>The equations that evaluate the percentage after given calls.\<close>

lemmas tracker_eval =
  started_10_def started_40_def newProgressTracker_def start_def setPhase_def
  updateProgress_def increment_def complete_def update_def percentage_at_eq

lemma percentage_at_mono:
  assumes "total s = total t" "total t \<noteq> PosInf"
    "js_le (Fin 0) (processed s)" "js_le (processed s) (processed t)"
  shows "js_le (percentage_at now s) (percentage_at now t)"
proof (cases "js_gt (total t) (Fin 0)")
  case True
  then obtain d where d: "0 < d" "total t = Fin d"
    using positive_finite assms(2) by blast
  show ?thesis
    using True assms(1) d(2)
    by (simp add: percentage_at_eq Math_round_mono js_mul_100_mono
        js_div_mono [OF assms(3,4) d(1)] js_div_nonneg [OF assms(3) d(1)])
next
  case False
  then show ?thesis using assms(1) by (simp add: percentage_at_eq js_le_def)
qed

lemma percentage_at_nonneg:
  assumes "total t \<noteq> PosInf" "js_le (Fin 0) (processed t)"
  shows "js_le (Fin 0) (percentage_at now t)"
proof (cases "js_gt (total t) (Fin 0)")
  case True
  then obtain d where d: "0 < d" "total t = Fin d"
    using positive_finite assms(1) by blast
  show ?thesis
    using True d(2)
    by (simp add: percentage_at_eq Math_round_nonneg js_mul_100_nonneg
        js_div_nonneg [OF assms(2) d(1)])
next
  case False
  then show ?thesis by (simp add: percentage_at_eq js_le_def)
qed

lemma percentage_at_upper:
  assumes "total t \<noteq> PosInf" "js_le (Fin 0) (processed t)" "js_le (processed t) (total t)"
  shows "js_le (percentage_at now t) (Fin 100)"
proof (cases "js_gt (total t) (Fin 0)")
  case True
  then obtain d where d: "0 < d" "total t = Fin d"
    using positive_finite assms(1) by blast
  have "js_le (js_div (processed t) (Fin d)) (Fin 1)"
    using js_div_upper [OF assms(2) _ d(1)] assms(3) d(2) by simp
  then have "js_le (js_mul (js_div (processed t) (Fin d)) (Fin 100)) (Fin 100)"
    by (rule js_mul_100_upper [OF js_div_nonneg [OF assms(2) d(1)]])
  then show ?thesis
    using True d(2) by (simp add: percentage_at_eq Math_round_upper)
next
  case False
  then show ?thesis by (simp add: percentage_at_eq js_le_def)
qed

text \<open>
  C5 (as amended). After \<open>start(total, phase)\<close> with a total other than \<open>Infinity\<close>, for every
  sequence of tracker calls whose processed values never decrease, every reported
  percentage is \<open>Math.round((processed / total) * 100)\<close>, quotient and product rounded to
  the nearest double, when the total is positive, and 0 otherwise; the percentages never
  decrease; and they stay within 0..100 when, in addition, no processed value exceeds the
  total. The tracker itself never clamps the counter.
\<close>

theorem progress_percentage_monotone:
  assumes "sorted_wrt js_le (Fin 0 # map processed (run_calls (start now0 tot ph t) calls))"
    and "tot \<noteq> PosInf"
  shows "(\<forall>s \<in> set (run_calls (start now0 tot ph t) calls).
            percentage_at now s =
              (if js_gt tot (Fin 0)
               then Math_round (js_mul (js_div (processed s) tot) (Fin 100))
               else Fin 0))
       \<and> sorted_wrt js_le (Fin 0 # map (percentage_at now) (run_calls (start now0 tot ph t) calls))
       \<and> ((\<forall>s \<in> set (run_calls (start now0 tot ph t) calls). js_le (processed s) tot) \<longrightarrow>
            (\<forall>s \<in> set (run_calls (start now0 tot ph t) calls).
               js_le (Fin 0) (percentage_at now s) \<and> js_le (percentage_at now s) (Fin 100)))"
proof -
  let ?t0 = "start now0 tot ph t"
  let ?ts = "run_calls ?t0 calls"
  have tot: "total s = tot" if "s \<in> set ?ts" for s
    using run_calls_total [OF that] by (simp add: start_fields)
  have eq: "\<forall>s \<in> set ?ts. percentage_at now s =
              (if js_gt tot (Fin 0)
               then Math_round (js_mul (js_div (processed s) tot) (Fin 100))
               else Fin 0)"
    using tot by (simp add: percentage_at_eq)
  have nonneg: "js_le (Fin 0) (processed s)" if "s \<in> set ?ts" for s
    using assms(1) that by auto
  have srt: "sorted_wrt (\<lambda>a b. js_le (processed a) (processed b)) ?ts"
    using assms(1) by (simp add: sorted_wrt_map)
  have "sorted_wrt (\<lambda>a b. js_le (percentage_at now a) (percentage_at now b)) ?ts"
  proof (rule sorted_wrt_mono_rel [OF _ srt])
    fix a b
    assume "a \<in> set ?ts" "b \<in> set ?ts" "js_le (processed a) (processed b)"
    then show "js_le (percentage_at now a) (percentage_at now b)"
      using percentage_at_mono [of a b now] tot nonneg assms(2) by simp
  qed
  then have mono: "sorted_wrt js_le (Fin 0 # map (percentage_at now) ?ts)"
    using percentage_at_nonneg [of _ now] tot nonneg assms(2)
    by (simp add: sorted_wrt_map)
  have "\<forall>s \<in> set ?ts. js_le (processed s) tot \<longrightarrow>
          js_le (Fin 0) (percentage_at now s) \<and> js_le (percentage_at now s) (Fin 100)"
    using percentage_at_nonneg [of _ now] percentage_at_upper [of _ now] tot nonneg assms(2)
    by simp
  with eq mono show ?thesis by blast
qed

theorem progress_percentage_monotone_witness:
  "sorted_wrt js_le (Fin 0 # map (percentage_at (Fin 5)) (run_calls started_10
       [Increment (Fin 1) ''a'', UpdateProgress (Fin 2) (Fin 4) ''b'',
        Increment (Fin 3) ''c'', Complete (Fin 4)]))
   \<and> map (percentage_at (Fin 5)) (run_calls started_10
       [Increment (Fin 1) ''a'', UpdateProgress (Fin 2) (Fin 4) ''b'',
        Increment (Fin 3) ''c'', Complete (Fin 4)])
      = [Fin 10, Fin 40, Fin 50, Fin 100]"
proof -
  let ?calls = "[Increment (Fin 1) ''a'', UpdateProgress (Fin 2) (Fin 4) ''b'',
        Increment (Fin 3) ''c'', Complete (Fin 4)]"
  have h: "sorted_wrt js_le (Fin 0 # map processed
      (run_calls (start (Fin 0) (Fin 10) Collecting (newProgressTracker False)) ?calls))"
    by (simp add: number_eval tracker_eval)
  have finite_total: "Fin 10 \<noteq> PosInf" by simp
  have "sorted_wrt js_le (Fin 0 # map (percentage_at (Fin 5))
      (run_calls (start (Fin 0) (Fin 10) Collecting (newProgressTracker False)) ?calls))"
    by (rule conjunct1 [OF conjunct2 [OF progress_percentage_monotone [OF h finite_total]]])
  moreover have "map (percentage_at (Fin 5)) (run_calls started_10 ?calls)
      = [Fin 10, Fin 40, Fin 50, Fin 100]"
    by (simp add: number_eval tracker_eval)
  ultimately show ?thesis by (simp only: started_10_def simp_thms)
qed

text \<open>
  The quotient is the double nearest to it: 23 of 40 is reported as 57, the product being
  57.49999999999999 in doubles, where 57.5 would round to 58.
\<close>

lemma percentage_23_of_40:
  "map (percentage_at (Fin 1)) (run_calls started_40 [UpdateProgress (Fin 1) (Fin 23) ''item''])
     = [Fin 57]"
  by (simp add: number_eval tracker_eval)

text \<open>
  With the total \<open>Infinity\<close> the quotient \<open>Infinity / Infinity\<close> is \<open>NaN\<close>, and so is
  the percentage.
\<close>

lemma percentage_of_infinite_total:
  "percentage_at now (updateProgress now PosInf item (start now0 PosInf ph t)) = NaN"
  by (simp add: number_eval tracker_eval)

text \<open>
  C5 as stated also bounds the percentage by 100 for every non-decreasing sequence. It does
  not hold: after \<open>start(10)\<close>, the single call \<open>updateProgress(20)\<close> is a
  non-decreasing sequence and reports 200.
\<close>

theorem progress_percentage_exceeds_100:
  "sorted_wrt js_le (Fin 0 # map processed (run_calls started_10 [UpdateProgress (Fin 1) (Fin 20) ''item'']))
   \<and> map (percentage_at (Fin 1)) (run_calls started_10 [UpdateProgress (Fin 1) (Fin 20) ''item''])
       = [Fin 200]"
  by (simp add: number_eval tracker_eval)

subsection \<open>Staging page resolution\<close>

lemma find_page_None: "find_page n doc i = None \<longleftrightarrow> n \<notin> set (map pname doc)"
  by (induction doc arbitrary: i) auto

text \<open>
  C4 (as amended). With the \<open>timestamp\<close> behaviour the function always creates a new
  page, appended to the document, and returns it, never a page that existed before. The
  new page is named \<open>Transfer\<close> followed by the date when a page named \<open>Transfer\<close>
  already exists, and plain \<open>Transfer\<close> when none does.
\<close>

theorem timestamp_creates_fresh_page:
  "findOrCreateTransferPage Timestamp today doc =
     (length doc,
      doc @ [\<lparr>pname = (if ''Transfer'' \<in> set (map pname doc)
                        then ''Transfer '' @ today else ''Transfer''),
              pchildren = []\<rparr>])"
  using find_page_None [of "''Transfer''" doc 0]
  by (auto simp: findOrCreateTransferPage_def createPage_def set_page_name_def
      split: option.splits)

text \<open>
  C4 as stated promises the date suffix whether or not a page named \<open>Transfer\<close> exists.
  In a document whose only page is \<open>Page 1\<close> the new page is named just \<open>Transfer\<close>.
\<close>

theorem timestamp_without_existing_page_has_no_suffix:
  "findOrCreateTransferPage Timestamp ''2026-01-15'' plain_document =
     (1, plain_document @ [\<lparr>pname = ''Transfer'', pchildren = []\<rparr>])"
  by (simp add: findOrCreateTransferPage_def createPage_def set_page_name_def
      plain_document_def)

subsection \<open>Batch runner\<close>

lemma slice_min: "slice xs i (min (i + b) (length xs)) = take b (drop i xs)"
  by (simp add: slice_def min_def)

lemma indexed_drop: "drop i (indexed xs) = zip (drop i xs) [i..<length xs]"
  by (simp add: indexed_def drop_zip drop_upt)

lemma process_items_ok:
  "\<forall>p \<in> set (zip xs [i + j..<i + j + length xs]). succeeds processor p \<Longrightarrow>
   process_items processor xs i j results tr =
     (Inr (results @ map (output_of processor) (zip xs [i + j..<i + j + length xs])),
      tr\<lparr>invoked := invoked tr @ zip xs [i + j..<i + j + length xs]\<rparr>)"
proof (induction xs arbitrary: j results tr)
  case Nil
  then show ?case by simp
next
  case (Cons x xs)
  have upt: "[i + j..<i + j + length (x # xs)] = (i + j) # [i + Suc j..<i + Suc j + length xs]"
    using upt_conv_Cons [of "i + j" "Suc (i + j + length xs)"] by simp
  from Cons.prems have ok: "succeeds processor (x, i + j)"
    and rest: "\<forall>p \<in> set (zip xs [i + Suc j..<i + Suc j + length xs]). succeeds processor p"
    unfolding upt by simp_all
  from ok obtain r where r: "processor x (i + j) = Inr r"
    by (cases "processor x (i + j)") (simp_all add: succeeds_def)
  show ?case
    unfolding upt using r Cons.IH [OF rest]
    by (simp add: output_of_def)
qed

lemma batch_zip:
  "zip (take b (drop i xs)) [i + 0..<i + 0 + length (take b (drop i xs))] =
   take b (drop i (indexed xs))"
proof (cases "i \<le> length xs")
  case True
  then show ?thesis
    by (simp add: indexed_drop take_zip take_upt min_def)
next
  case False
  then show ?thesis by (simp add: indexed_def)
qed

lemma batch_step:
  assumes "\<forall>p \<in> set (take b (drop i (indexed items))). succeeds processor p"
  shows "process_items processor (slice items i (min (i + b) (length items))) i 0 results tr =
     (Inr (results @ map (output_of processor) (take b (drop i (indexed items)))),
      tr\<lparr>invoked := invoked tr @ take b (drop i (indexed items))\<rparr>)"
  using process_items_ok [of "take b (drop i items)" i 0 processor results tr] assms
  unfolding slice_min batch_zip by simp

lemma take_drop_add: "take b (drop i xs) @ take m (drop (i + b) xs) = take (b + m) (drop i xs)"
  by (metis add.commute drop_drop take_add)

lemma batch_loop_cancelled:
  assumes "\<forall>j<N. \<not> isCancelled token (k + j)" "isCancelled token (k + N)"
    and "i + N * b < length items"
    and "\<forall>p \<in> set (take (N * b) (drop i (indexed items))). succeeds processor p"
  shows "\<exists>tr'. batch_loop items b processor onProgress token i k results tr
            = Some (Inl cancelled_error, tr')
          \<and> invoked tr' = invoked tr @ take (N * b) (drop i (indexed items))"
  using assms
proof (induction N arbitrary: i k results tr)
  case 0
  then show ?case by (subst batch_loop.simps) simp
next
  case (Suc N)
  let ?batch = "take b (drop i (indexed items))"
  have i: "i < length items" using Suc.prems(3) by simp
  have nc: "\<not> isCancelled token k" using Suc.prems(1) by force
  have sub: "set ?batch \<subseteq> set (take (Suc N * b) (drop i (indexed items)))"
    by (metis mult_Suc set_take_subset_set_take le_add1)
  then have ok: "\<forall>p \<in> set ?batch. succeeds processor p" using Suc.prems(4) by blast
  note step = batch_step [OF ok, of results tr]
  define tr1 where "tr1 = tr\<lparr>invoked := invoked tr @ ?batch\<rparr>"
  define tr2 where "tr2 = (if onProgress
       then tr1\<lparr>progress := progress tr1 @ [(min (i + b) (length items), length items)]\<rparr>
       else tr1)"
  define tr3 where "tr3 = (if i + b < length items then tr2\<lparr>yields := Suc (yields tr2)\<rparr> else tr2)"
  have inv3: "invoked tr3 = invoked tr @ ?batch"
    by (simp add: tr3_def tr2_def tr1_def)
  have unfold: "batch_loop items b processor onProgress token i k results tr =
      batch_loop items b processor onProgress token (i + b) (Suc k)
        (results @ map (output_of processor) ?batch) tr3"
    by (subst batch_loop.simps) (simp add: i nc step Let_def tr3_def tr2_def tr1_def)
  have p1: "\<forall>j<N. \<not> isCancelled token (Suc k + j)" using Suc.prems(1) by force
  have p2: "isCancelled token (Suc k + N)" using Suc.prems(2) by simp
  have p3: "i + b + N * b < length items" using Suc.prems(3) by (simp add: algebra_simps)
  have "set (take (N * b) (drop (i + b) (indexed items)))
          \<subseteq> set (take (Suc N * b) (drop i (indexed items)))"
    using take_drop_add [of b i "indexed items" "N * b"] by (metis Un_upper2 mult_Suc set_append)
  then have p4: "\<forall>p \<in> set (take (N * b) (drop (i + b) (indexed items))). succeeds processor p"
    using Suc.prems(4) by blast
  from Suc.IH [OF p1 p2 p3 p4, of "results @ map (output_of processor) ?batch" tr3]
  obtain tr' where "batch_loop items b processor onProgress token (i + b) (Suc k)
        (results @ map (output_of processor) ?batch) tr3 = Some (Inl cancelled_error, tr')"
     and "invoked tr' = invoked tr3 @ take (N * b) (drop (i + b) (indexed items))" by blast
  then show ?case
    unfolding unfold using inv3 take_drop_add [of b i "indexed items" "N * b"] by simp
qed

lemma batch_loop_completes:
  assumes "0 < b" "\<forall>k. \<not> isCancelled token k"
    and "\<forall>p \<in> set (drop i (indexed items)). succeeds processor p"
  shows "\<exists>tr'. batch_loop items b processor onProgress token i k results tr
            = Some (Inr (results @ map (output_of processor) (drop i (indexed items))), tr')
          \<and> invoked tr' = invoked tr @ drop i (indexed items)"
  using assms(3)
proof (induction "length items - i" arbitrary: i k results tr rule: less_induct)
  case less
  show ?case
  proof (cases "i < length items")
    case False
    then show ?thesis by (subst batch_loop.simps) (simp add: indexed_def)
  next
    case True
    let ?batch = "take b (drop i (indexed items))"
    have nc: "\<not> isCancelled token k" using assms(2) by simp
    have ok: "\<forall>p \<in> set ?batch. succeeds processor p"
      using less.prems by (meson in_set_takeD)
    note step = batch_step [OF ok, of results tr]
    define tr1 where "tr1 = tr\<lparr>invoked := invoked tr @ ?batch\<rparr>"
    define tr2 where "tr2 = (if onProgress
       then tr1\<lparr>progress := progress tr1 @ [(min (i + b) (length items), length items)]\<rparr>
       else tr1)"
    define tr3 where "tr3 = (if i + b < length items then tr2\<lparr>yields := Suc (yields tr2)\<rparr> else tr2)"
    have inv3: "invoked tr3 = invoked tr @ ?batch"
      by (simp add: tr3_def tr2_def tr1_def)
    have unfold: "batch_loop items b processor onProgress token i k results tr =
      batch_loop items b processor onProgress token (i + b) (Suc k)
        (results @ map (output_of processor) ?batch) tr3"
      by (subst batch_loop.simps) (simp add: True nc step Let_def tr3_def tr2_def tr1_def)
    have m: "length items - (i + b) < length items - i" using True assms(1) by simp
    have rest: "\<forall>p \<in> set (drop (i + b) (indexed items)). succeeds processor p"
      using less.prems by (metis add.commute drop_drop in_set_dropD)
    have split: "?batch @ drop (i + b) (indexed items) = drop i (indexed items)"
      by (metis add.commute append_take_drop_id drop_drop)
    from less.hyps [OF m rest, of "Suc k" "results @ map (output_of processor) ?batch" tr3]
    obtain tr' where "batch_loop items b processor onProgress token (i + b) (Suc k)
        (results @ map (output_of processor) ?batch) tr3
          = Some (Inr ((results @ map (output_of processor) ?batch)
                @ map (output_of processor) (drop (i + b) (indexed items))), tr')"
     and "invoked tr' = invoked tr3 @ drop (i + b) (indexed items)" by blast
    then show ?thesis
      unfolding unfold using inv3 split by (metis append.assoc map_append)
  qed
qed

lemma batch_loop_diverges:
  assumes "batch_loop items b processor onProgress token i k results tr = Some y"
  shows "\<not> (b = 0 \<and> i < length items \<and> (\<forall>j. \<not> isCancelled token j))"
  apply (rule batch_loop.raw_induct
    [where P = "\<lambda>items b processor onProgress token i k results tr y.
                  \<not> (b = 0 \<and> i < length items \<and> (\<forall>j. \<not> isCancelled token j))",
     OF _ assms])
  apply (rule notI, elim conjE)
  apply (simp add: slice_def Let_def)
  apply blast
  done

text \<open>
  C9. Let batch \<open>N\<close> be the first batch whose cancellation check finds the token cancelled
  (the checks of batches \<open>0..N-1\<close> did not), and let the processor return normally on the
  items before it. Then the call fails with the error \<open>Operation cancelled\<close>, and the
  processor has been called exactly on the first \<open>N * batchSize\<close> items, each with its
  index, in input order.
\<close>

theorem processBatch_cancelled_before_batch:
  assumes "\<forall>j<N. \<not> isCancelled token j" and "isCancelled token N"
    and "N * batchSize < length items"
    and "\<forall>p \<in> set (take (N * batchSize) (indexed items)). succeeds processor p"
  shows "\<exists>tr. processBatch items batchSize processor onProgress token
                 = Some (Inl cancelled_error, tr)
             \<and> invoked tr = take (N * batchSize) (indexed items)"
  using batch_loop_cancelled [of N token 0 0 batchSize items processor onProgress "[]"
      empty_trace] assms
  by (simp add: processBatch_def empty_trace_def)

theorem processBatch_cancelled_before_batch_witness:
  "\<exists>tr. processBatch [10, 20, 30, 40, 50 :: nat] 2 (\<lambda>x i. Inr (x + i)) True
            (Some (\<lambda>k. 1 \<le> k))
          = (Some (Inl cancelled_error, tr) :: ((error + nat list) \<times> nat batch_trace) option)
      \<and> invoked tr = [(10, 0), (20, 1)]"
  using processBatch_cancelled_before_batch
    [of 1 "Some (\<lambda>k. 1 \<le> k)" 2 "[10, 20, 30, 40, 50 :: nat]"
        "\<lambda>x i. (Inr (x + i) :: error + nat)" True]
  by (simp add: isCancelled_def indexed_def succeeds_def upt_rec)

text \<open>
  C10. When the token is never seen cancelled and the processor returns normally on every
  item, \<open>processBatch\<close> with a batch size of at least 1 returns: the processor has been
  called once on each item with its index, in input order, and the results come back in
  that order. With a batch size of 0 and at least one item it never returns.
\<close>

theorem processBatch_terminates_iff_positive_batchSize:
  assumes "\<forall>k. \<not> isCancelled token k"
    and "\<forall>p \<in> set (indexed items). succeeds processor p"
  shows "(0 < batchSize \<longrightarrow>
           (\<exists>tr. processBatch items batchSize processor onProgress token
                    = Some (Inr (map (output_of processor) (indexed items)), tr)
                \<and> invoked tr = indexed items))
       \<and> (batchSize = 0 \<and> items \<noteq> [] \<longrightarrow>
           processBatch items batchSize processor onProgress token = None)"
proof (intro conjI impI)
  assume "0 < batchSize"
  from batch_loop_completes [OF this assms(1), of 0 items processor onProgress 0 "[]"
      empty_trace] assms(2)
  show "\<exists>tr. processBatch items batchSize processor onProgress token
                = Some (Inr (map (output_of processor) (indexed items)), tr)
            \<and> invoked tr = indexed items"
    by (simp add: processBatch_def empty_trace_def)
next
  assume z: "batchSize = 0 \<and> items \<noteq> []"
  show "processBatch items batchSize processor onProgress token = None"
  proof (cases "processBatch items batchSize processor onProgress token")
    case None
    then show ?thesis .
  next
    case (Some y)
    then have "batch_loop items batchSize processor onProgress token 0 0 [] empty_trace
        = Some y"
      by (simp add: processBatch_def)
    from batch_loop_diverges [OF this] z assms(1) show ?thesis by simp
  qed
qed

theorem processBatch_terminates_iff_positive_batchSize_witness:
  "(\<exists>tr. processBatch [10, 20, 30 :: nat] 2 (\<lambda>x i. Inr (x + i)) True None
          = (Some (Inr [10, 21, 32], tr) :: ((error + nat list) \<times> nat batch_trace) option)
        \<and> invoked tr = [(10, 0), (20, 1), (30, 2)])
   \<and> processBatch [10, 20, 30 :: nat] 0 (\<lambda>x i. (Inr (x + i) :: error + nat)) True None
       = None"
  using processBatch_terminates_iff_positive_batchSize
    [of None "[10, 20, 30 :: nat]" "\<lambda>x i. (Inr (x + i) :: error + nat)" 2 True]
    processBatch_terminates_iff_positive_batchSize
    [of None "[10, 20, 30 :: nat]" "\<lambda>x i. (Inr (x + i) :: error + nat)" 0 True]
  by (simp add: isCancelled_def indexed_def succeeds_def output_of_def upt_rec
      numeral_2_eq_2)

subsection \<open>Layout\<close>

text \<open>
  C3. The property: the spacing is the base spacing times 2 for a count above 100, times
  1.5 for a count above 50 and up to 100, and the base spacing otherwise. The code does not
  have it above 100: it tests \<open>count > 50\<close> first, so the \<open>count > 100\<close> branch is
  never reached, and 150 components with base spacing 200 get 300, the same as 60
  components, and not 400 (the repository's layout test expects the spacing for 150 to
  exceed the one for 60).
\<close>

theorem calculateOptimalSpacing_150_not_doubled:
  "calculateOptimalSpacing 150 200 = 300 \<and> calculateOptimalSpacing 60 200 = 300
   \<and> calculateOptimalSpacing 150 200 \<noteq> 200 * 2"
  by (simp add: calculateOptimalSpacing_def)

end
